theory Spec2Isabelle
  imports Main "HOL-Library.Word" "HOL-Library.AList"
begin

section \<open>Core types and constants (include/types.h)\<close>

text \<open>
  The fixed-width integers of the source are machine words: \<open>+\<close> and \<open>-\<close> wrap
  around as the unsigned C++ arithmetic does, \<open>unat\<close> reads a word as a natural number
  and \<open>sint\<close> as a two's complement integer. A \<open>Price\<close> is an \<open>int64_t\<close>: its
  order is the signed one (\<open><s\<close>).
\<close>

type_synonym OrderID = "64 word"
type_synonym Price = "64 word"
type_synonym Size = "32 word"
type_synonym Sequence = "32 word"

definition MBP_LEVELS :: nat where
  "MBP_LEVELS = 10"

definition kUndefPrice :: Price where
  "kUndefPrice = 9223372036854775807"

definition BID_SIDE :: char where
  "BID_SIDE = CHR ''B''"

definition ASK_SIDE :: char where
  "ASK_SIDE = CHR ''A''"

definition NEUTRAL_SIDE :: char where
  "NEUTRAL_SIDE = CHR ''N''"

definition ACTION_ADD :: char where
  "ACTION_ADD = CHR ''A''"

definition ACTION_CANCEL :: char where
  "ACTION_CANCEL = CHR ''C''"

definition ACTION_MODIFY :: char where
  "ACTION_MODIFY = CHR ''M''"

definition ACTION_TRADE :: char where
  "ACTION_TRADE = CHR ''T''"

definition ACTION_FILL :: char where
  "ACTION_FILL = CHR ''F''"

definition ACTION_CLEAR :: char where
  "ACTION_CLEAR = CHR ''R''"

definition ACTION_NONE :: char where
  "ACTION_NONE = CHR ''N''"

section \<open>Validation helpers (src/utils.cpp)\<close>

definition IsValidPrice :: "Price \<Rightarrow> bool" where
  "IsValidPrice price \<longleftrightarrow> price \<noteq> kUndefPrice \<and> 0 <s price"

definition IsValidSize :: "Size \<Rightarrow> bool" where
  "IsValidSize sz \<longleftrightarrow> 0 < sz"

definition IsValidSide :: "char \<Rightarrow> bool" where
  "IsValidSide side \<longleftrightarrow> side = BID_SIDE \<or> side = ASK_SIDE \<or> side = NEUTRAL_SIDE"

definition IsValidAction :: "char \<Rightarrow> bool" where
  "IsValidAction action \<longleftrightarrow>
     action = ACTION_ADD \<or> action = ACTION_CANCEL \<or>
     action = ACTION_MODIFY \<or> action = ACTION_TRADE \<or>
     action = ACTION_FILL \<or> action = ACTION_CLEAR \<or>
     action = ACTION_NONE"

section \<open>Price levels (include/order.h)\<close>

text \<open>
  \<open>std::unordered_map<OrderID, Size>\<close> is an association list with at most one entry
  per key: \<open>map_of\<close> is \<open>find\<close>, \<open>AList.update\<close> is \<open>orders[id] = size\<close>
  (it overwrites the entry of a key that is present) and \<open>AList.delete\<close> is
  \<open>erase\<close>. Note that \<open>total_size\<close> has the type \<open>Size\<close>, that is
  \<open>uint32_t\<close>, in the source.
\<close>

record PriceLevel =
  price :: Price
  total_size :: Size
  order_count :: "32 word"
  orders :: "(OrderID \<times> Size) list"

definition PriceLevel_default :: PriceLevel where
  "PriceLevel_default = \<lparr>price = kUndefPrice, total_size = 0, order_count = 0, orders = []\<rparr>"

definition PriceLevel_IsEmpty :: "PriceLevel \<Rightarrow> bool" where
  "PriceLevel_IsEmpty l \<longleftrightarrow> price l = kUndefPrice \<or> order_count l = 0"

definition PriceLevel_AddOrder :: "OrderID \<Rightarrow> Size \<Rightarrow> PriceLevel \<Rightarrow> PriceLevel" where
  "PriceLevel_AddOrder order_id sz l =
     l\<lparr>orders := AList.update order_id sz (orders l),
       total_size := total_size l + sz,
       order_count := order_count l + 1\<rparr>"

definition PriceLevel_RemoveOrder :: "OrderID \<Rightarrow> PriceLevel \<Rightarrow> PriceLevel" where
  "PriceLevel_RemoveOrder order_id l =
     (case map_of (orders l) order_id of
        None \<Rightarrow> l
      | Some old \<Rightarrow>
          (let l1 = l\<lparr>total_size := total_size l - old,
                      order_count := order_count l - 1,
                      orders := AList.delete order_id (orders l)\<rparr>
           in if order_count l1 = 0
              then l1\<lparr>price := kUndefPrice, total_size := 0\<rparr>
              else l1))"

definition PriceLevel_ModifyOrder :: "OrderID \<Rightarrow> Size \<Rightarrow> PriceLevel \<Rightarrow> PriceLevel" where
  "PriceLevel_ModifyOrder order_id new_size l =
     (case map_of (orders l) order_id of
        None \<Rightarrow> l
      | Some old \<Rightarrow>
          l\<lparr>total_size := total_size l - old + new_size,
            orders := AList.update order_id new_size (orders l)\<rparr>)"

definition PriceLevel_GetOrderSize :: "OrderID \<Rightarrow> PriceLevel \<Rightarrow> Size" where
  "PriceLevel_GetOrderSize order_id l =
     (case map_of (orders l) order_id of None \<Rightarrow> 0 | Some s \<Rightarrow> s)"

definition PriceLevel_HasOrder :: "OrderID \<Rightarrow> PriceLevel \<Rightarrow> bool" where
  "PriceLevel_HasOrder order_id l \<longleftrightarrow> map_of (orders l) order_id \<noteq> None"

record CompactPriceLevel =
  c_price :: Price
  c_size :: Size
  c_count :: "32 word"

definition CompactPriceLevel_of :: "PriceLevel \<Rightarrow> CompactPriceLevel" where
  "CompactPriceLevel_of l = \<lparr>c_price = price l, c_size = total_size l, c_count = order_count l\<rparr>"

section \<open>Records (include/records.h, src/records.cpp)\<close>

record MBORecord =
  mbo_ts_recv :: string
  mbo_ts_event :: string
  mbo_rtype :: "8 word"
  mbo_publisher_id :: "16 word"
  mbo_instrument_id :: "32 word"
  mbo_action :: char
  mbo_side :: char
  mbo_price :: Price
  mbo_size :: Size
  mbo_channel_id :: "8 word"
  mbo_order_id :: OrderID
  mbo_flags :: "8 word"
  mbo_ts_in_delta :: "32 word"
  mbo_sequence :: Sequence
  mbo_symbol :: string

definition IsValid :: "MBORecord \<Rightarrow> bool" where
  "IsValid r \<longleftrightarrow>
     IsValidAction (mbo_action r) \<and>
     IsValidSide (mbo_side r) \<and>
     (mbo_action r = ACTION_CLEAR \<or> IsValidPrice (mbo_price r)) \<and>
     (mbo_action r = ACTION_CLEAR \<or> IsValidSize (mbo_size r))"

text \<open>
  The \<open>std::array\<close>s of an \<open>MBPRecord\<close> are lists; the constructor fills them with
  \<open>MBP_LEVELS\<close> default entries and no operation changes their length. Fields that
  several structs share by name carry the struct as a prefix (\<open>mbo_price\<close>,
  \<open>mbp_price\<close>, \<open>c_price\<close>).
\<close>

record MBPRecord =
  mbp_ts_recv :: string
  mbp_ts_event :: string
  mbp_rtype :: "8 word"
  mbp_publisher_id :: "16 word"
  mbp_instrument_id :: "32 word"
  mbp_action :: char
  mbp_side :: char
  mbp_depth :: "32 word"
  mbp_price :: Price
  mbp_size :: Size
  mbp_flags :: "8 word"
  mbp_ts_in_delta :: "32 word"
  mbp_sequence :: Sequence
  bid_prices :: "Price list"
  bid_sizes :: "Size list"
  bid_counts :: "32 word list"
  ask_prices :: "Price list"
  ask_sizes :: "Size list"
  ask_counts :: "32 word list"
  mbp_symbol :: string
  mbp_order_id :: OrderID

definition SetBidLevel :: "nat \<Rightarrow> Price \<Rightarrow> Size \<Rightarrow> 32 word \<Rightarrow> MBPRecord \<Rightarrow> MBPRecord" where
  "SetBidLevel level p s c r =
     (if level < MBP_LEVELS
      then r\<lparr>bid_prices := (bid_prices r)[level := p],
             bid_sizes := (bid_sizes r)[level := s],
             bid_counts := (bid_counts r)[level := c]\<rparr>
      else r)"

definition SetAskLevel :: "nat \<Rightarrow> Price \<Rightarrow> Size \<Rightarrow> 32 word \<Rightarrow> MBPRecord \<Rightarrow> MBPRecord" where
  "SetAskLevel level p s c r =
     (if level < MBP_LEVELS
      then r\<lparr>ask_prices := (ask_prices r)[level := p],
             ask_sizes := (ask_sizes r)[level := s],
             ask_counts := (ask_counts r)[level := c]\<rparr>
      else r)"

text \<open>
  \<open>MBPRecord::FromOrderBook\<close>: the metadata of the event, \<open>rtype = 10\<close>, depth 1 for a
  Cancel and 0 otherwise, then the two loops
  \<open>for (i = 0; i < bids.size() && i < MBP_LEVELS; ++i)\<close> over the two vectors.
\<close>

definition FromOrderBook ::
  "MBORecord \<Rightarrow> CompactPriceLevel list \<Rightarrow> CompactPriceLevel list \<Rightarrow> MBPRecord" where
  "FromOrderBook mbo top_bids top_asks =
     (let r0 = \<lparr>mbp_ts_recv = mbo_ts_recv mbo,
                mbp_ts_event = mbo_ts_event mbo,
                mbp_rtype = 10,
                mbp_publisher_id = mbo_publisher_id mbo,
                mbp_instrument_id = mbo_instrument_id mbo,
                mbp_action = mbo_action mbo,
                mbp_side = mbo_side mbo,
                mbp_depth = (if mbo_action mbo = ACTION_CANCEL then 1 else 0),
                mbp_price = mbo_price mbo,
                mbp_size = mbo_size mbo,
                mbp_flags = mbo_flags mbo,
                mbp_ts_in_delta = mbo_ts_in_delta mbo,
                mbp_sequence = mbo_sequence mbo,
                bid_prices = replicate MBP_LEVELS kUndefPrice,
                bid_sizes = replicate MBP_LEVELS 0,
                bid_counts = replicate MBP_LEVELS 0,
                ask_prices = replicate MBP_LEVELS kUndefPrice,
                ask_sizes = replicate MBP_LEVELS 0,
                ask_counts = replicate MBP_LEVELS 0,
                mbp_symbol = mbo_symbol mbo,
                mbp_order_id = mbo_order_id mbo\<rparr>;
          r1 = foldl (\<lambda>r i. SetBidLevel i (c_price (top_bids ! i)) (c_size (top_bids ! i))
                                (c_count (top_bids ! i)) r)
                 r0 [0 ..< min (length top_bids) MBP_LEVELS]
      in foldl (\<lambda>r i. SetAskLevel i (c_price (top_asks ! i)) (c_size (top_asks ! i))
                         (c_count (top_asks ! i)) r)
           r1 [0 ..< min (length top_asks) MBP_LEVELS])"

section \<open>The order book (include/orderbook.h, src/orderbook.cpp)\<close>

text \<open>
  A \<open>std::map\<close> from prices to levels is the list of its entries in iteration order.
  \<open>map_subscript cmp k m\<close> is \<open>m[k]\<close>: it inserts a default level at the place the
  comparator \<open>cmp\<close> gives the key when the key is absent. \<open>map_of\<close> is \<open>find\<close>,
  \<open>AList.delete\<close> is \<open>erase\<close>, and a write through a reference to the level stored
  at \<open>k\<close> is \<open>AList.map_entry k\<close>. The data members of the source end in an
  underscore (\<open>bids_\<close>, \<open>order_lookup_\<close>, \<open>has_changes_\<close>); the fields of the
  records are named without it.
\<close>

type_synonym Levels = "(Price \<times> PriceLevel) list"

definition greater_Price :: "Price \<Rightarrow> Price \<Rightarrow> bool" where
  "greater_Price a b \<longleftrightarrow> b <s a"

definition less_Price :: "Price \<Rightarrow> Price \<Rightarrow> bool" where
  "less_Price a b \<longleftrightarrow> a <s b"

fun map_subscript :: "(Price \<Rightarrow> Price \<Rightarrow> bool) \<Rightarrow> Price \<Rightarrow> Levels \<Rightarrow> Levels" where
  "map_subscript cmp k [] = [(k, PriceLevel_default)]"
| "map_subscript cmp k ((k', v) # m) =
     (if k = k' then (k', v) # m
      else if cmp k k' then (k, PriceLevel_default) # (k', v) # m
      else (k', v) # map_subscript cmp k m)"

datatype error =
    InvalidRecord
  | UnknownAction char
  | OrderExists OrderID
  | InvalidSide char
  | InvalidRType "8 word"
  | InvalidMBPAction char
  | InvalidMBPSide char
  | InvalidBidLevel nat
  | InvalidAskLevel nat

text \<open>
  A member function that can throw returns an \<open>outcome\<close>: \<open>Done s\<close> when it returns
  with the object in state \<open>s\<close>, \<open>Thrown e s\<close> when it throws \<open>e\<close> and the object is
  left in state \<open>s\<close>, with every write made before the throw.
\<close>

datatype 's outcome = Done 's | Thrown error 's

fun state_of :: "'s outcome \<Rightarrow> 's" where
  "state_of (Done s) = s"
| "state_of (Thrown e s) = s"

fun has_thrown :: "'s outcome \<Rightarrow> bool" where
  "has_thrown (Done s) = False"
| "has_thrown (Thrown e s) = True"

record OrderBook =
  bids :: Levels
  asks :: Levels
  order_lookup :: "(OrderID \<times> Price \<times> char) list"
  has_changes :: bool
  bid_levels_cache :: "CompactPriceLevel list"
  ask_levels_cache :: "CompactPriceLevel list"

definition OrderBook_new :: OrderBook where
  "OrderBook_new =
     \<lparr>bids = [], asks = [], order_lookup = [], has_changes = False,
      bid_levels_cache = [], ask_levels_cache = []\<rparr>"

definition HasChanges :: "OrderBook \<Rightarrow> bool" where
  "HasChanges b = has_changes b"

definition ResetChanges :: "OrderBook \<Rightarrow> OrderBook" where
  "ResetChanges b = b\<lparr>has_changes := False\<rparr>"

definition MarkChanged :: "OrderBook \<Rightarrow> OrderBook" where
  "MarkChanged b = b\<lparr>has_changes := True\<rparr>"

definition set_level_price :: "Price \<Rightarrow> PriceLevel \<Rightarrow> PriceLevel" where
  "set_level_price p level = (if price level = kUndefPrice then level\<lparr>price := p\<rparr> else level)"

text \<open>
  \<open>GetOrCreateLevel\<close> returns a reference to the level stored at \<open>(side, price)\<close>,
  or throws on a side that is neither bid nor ask, before any write. The model returns
  the book with the level in place; \<open>at_level side price f\<close> is a call of the member
  function \<open>f\<close> through that reference.
\<close>

definition GetOrCreateLevel :: "char \<Rightarrow> Price \<Rightarrow> OrderBook \<Rightarrow> error + OrderBook" where
  "GetOrCreateLevel side p b =
     (if side = BID_SIDE
      then Inr (b\<lparr>bids := AList.map_entry p (set_level_price p)
                            (map_subscript greater_Price p (bids b))\<rparr>)
      else if side = ASK_SIDE
      then Inr (b\<lparr>asks := AList.map_entry p (set_level_price p)
                            (map_subscript less_Price p (asks b))\<rparr>)
      else Inl (InvalidSide side))"

definition at_level :: "char \<Rightarrow> Price \<Rightarrow> (PriceLevel \<Rightarrow> PriceLevel) \<Rightarrow> OrderBook \<Rightarrow> OrderBook" where
  "at_level side p f b =
     (if side = BID_SIDE then b\<lparr>bids := AList.map_entry p f (bids b)\<rparr>
      else if side = ASK_SIDE then b\<lparr>asks := AList.map_entry p f (asks b)\<rparr>
      else b)"

definition erase_if_empty :: "Price \<Rightarrow> Levels \<Rightarrow> Levels" where
  "erase_if_empty p m =
     (case map_of m p of
        None \<Rightarrow> m
      | Some level \<Rightarrow> if PriceLevel_IsEmpty level then AList.delete p m else m)"

definition RemoveEmptyLevel :: "char \<Rightarrow> Price \<Rightarrow> OrderBook \<Rightarrow> OrderBook" where
  "RemoveEmptyLevel side p b =
     (if side = BID_SIDE then b\<lparr>bids := erase_if_empty p (bids b)\<rparr>
      else if side = ASK_SIDE then b\<lparr>asks := erase_if_empty p (asks b)\<rparr>
      else b)"

definition AddOrder :: "MBORecord \<Rightarrow> OrderBook \<Rightarrow> OrderBook outcome" where
  "AddOrder r b =
     (if map_of (order_lookup b) (mbo_order_id r) \<noteq> None
      then Thrown (OrderExists (mbo_order_id r)) b
      else case GetOrCreateLevel (mbo_side r) (mbo_price r) b of
             Inl e \<Rightarrow> Thrown e b
           | Inr b1 \<Rightarrow>
               (let b2 = at_level (mbo_side r) (mbo_price r)
                           (PriceLevel_AddOrder (mbo_order_id r) (mbo_size r)) b1;
                    b3 = b2\<lparr>order_lookup :=
                              AList.update (mbo_order_id r) (mbo_price r, mbo_side r)
                                (order_lookup b2)\<rparr>
                in Done (MarkChanged b3)))"

definition CancelOrder :: "MBORecord \<Rightarrow> OrderBook \<Rightarrow> OrderBook outcome" where
  "CancelOrder r b =
     (case map_of (order_lookup b) (mbo_order_id r) of
        None \<Rightarrow> Done b
      | Some (p, side) \<Rightarrow>
          (case GetOrCreateLevel side p b of
             Inl e \<Rightarrow> Thrown e b
           | Inr b1 \<Rightarrow>
               (let b2 = at_level side p (PriceLevel_RemoveOrder (mbo_order_id r)) b1;
                    b3 = b2\<lparr>order_lookup := AList.delete (mbo_order_id r) (order_lookup b2)\<rparr>;
                    b4 = RemoveEmptyLevel side p b3
                in Done (MarkChanged b4))))"

definition ModifyOrder :: "MBORecord \<Rightarrow> OrderBook \<Rightarrow> OrderBook outcome" where
  "ModifyOrder r b =
     (case map_of (order_lookup b) (mbo_order_id r) of
        None \<Rightarrow> AddOrder r b
      | Some (old_price, old_side) \<Rightarrow>
          if old_price \<noteq> mbo_price r \<or> old_side \<noteq> mbo_side r
          then (case GetOrCreateLevel old_side old_price b of
                  Inl e \<Rightarrow> Thrown e b
                | Inr b1 \<Rightarrow>
                    (let b2 = at_level old_side old_price
                                (PriceLevel_RemoveOrder (mbo_order_id r)) b1;
                         b3 = RemoveEmptyLevel old_side old_price b2
                     in case GetOrCreateLevel (mbo_side r) (mbo_price r) b3 of
                          Inl e \<Rightarrow> Thrown e b3
                        | Inr b4 \<Rightarrow>
                            (let b5 = at_level (mbo_side r) (mbo_price r)
                                        (PriceLevel_AddOrder (mbo_order_id r) (mbo_size r)) b4;
                                 b6 = b5\<lparr>order_lookup :=
                                           AList.update (mbo_order_id r)
                                             (mbo_price r, mbo_side r) (order_lookup b5)\<rparr>
                             in Done (MarkChanged b6))))
          else (case GetOrCreateLevel (mbo_side r) (mbo_price r) b of
                  Inl e \<Rightarrow> Thrown e b
                | Inr b1 \<Rightarrow>
                    Done (MarkChanged
                      (at_level (mbo_side r) (mbo_price r)
                         (PriceLevel_ModifyOrder (mbo_order_id r) (mbo_size r)) b1))))"

definition Clear :: "OrderBook \<Rightarrow> OrderBook" where
  "Clear b = MarkChanged (b\<lparr>bids := [], asks := [], order_lookup := []\<rparr>)"

definition Apply :: "MBORecord \<Rightarrow> OrderBook \<Rightarrow> OrderBook outcome" where
  "Apply r b =
     (if \<not> IsValid r then Thrown InvalidRecord b
      else if mbo_action r = ACTION_ADD then AddOrder r b
      else if mbo_action r = ACTION_CANCEL then CancelOrder r b
      else if mbo_action r = ACTION_MODIFY then ModifyOrder r b
      else if mbo_action r = ACTION_CLEAR then Done (Clear b)
      else if mbo_action r = ACTION_TRADE \<or> mbo_action r = ACTION_FILL
              \<or> mbo_action r = ACTION_NONE then Done b
      else Thrown (UnknownAction (mbo_action r)) b)"

text \<open>
  The loop of \<open>GetTopBids\<close> and \<open>GetTopAsks\<close>: it stops when the cache holds
  \<open>levels\<close> entries and skips a level that is empty. The caches are \<open>mutable\<close>
  members: the call writes its result into the book's cache and returns a copy.
\<close>

fun top_levels_loop :: "nat \<Rightarrow> Levels \<Rightarrow> CompactPriceLevel list \<Rightarrow> CompactPriceLevel list" where
  "top_levels_loop levels [] cache = cache"
| "top_levels_loop levels ((p, level) # m) cache =
     (if levels \<le> length cache then cache
      else if \<not> PriceLevel_IsEmpty level
      then top_levels_loop levels m (cache @ [CompactPriceLevel_of level])
      else top_levels_loop levels m cache)"

definition GetTopBids :: "nat \<Rightarrow> OrderBook \<Rightarrow> CompactPriceLevel list \<times> OrderBook" where
  "GetTopBids levels b =
     (let cache = top_levels_loop levels (bids b) []
      in (cache, b\<lparr>bid_levels_cache := cache\<rparr>))"

definition GetTopAsks :: "nat \<Rightarrow> OrderBook \<Rightarrow> CompactPriceLevel list \<times> OrderBook" where
  "GetTopAsks levels b =
     (let cache = top_levels_loop levels (asks b) []
      in (cache, b\<lparr>ask_levels_cache := cache\<rparr>))"

text \<open>
  \<open>ValidateConsistency\<close>: every order of the lookup is found in the level it names
  (\<open>GetLevel\<close> throws when the level or the side does not exist, which the function
  catches and reports as a failure), and every order stored in a level is tracked in the
  lookup with the level's price and side.
\<close>

definition lookup_entry_ok :: "OrderBook \<Rightarrow> OrderID \<times> Price \<times> char \<Rightarrow> bool" where
  "lookup_entry_ok b e =
     (case e of (order_id, p, side) \<Rightarrow>
        if side = BID_SIDE
        then (case map_of (bids b) p of None \<Rightarrow> False
              | Some level \<Rightarrow> PriceLevel_HasOrder order_id level)
        else if side = ASK_SIDE
        then (case map_of (asks b) p of None \<Rightarrow> False
              | Some level \<Rightarrow> PriceLevel_HasOrder order_id level)
        else False)"

definition level_tracked :: "OrderBook \<Rightarrow> char \<Rightarrow> Price \<times> PriceLevel \<Rightarrow> bool" where
  "level_tracked b side e =
     (case e of (p, level) \<Rightarrow>
        list_all (\<lambda>(order_id, sz). map_of (order_lookup b) order_id = Some (p, side))
          (orders level))"

definition ValidateConsistency :: "OrderBook \<Rightarrow> bool" where
  "ValidateConsistency b \<longleftrightarrow>
     list_all (lookup_entry_ok b) (order_lookup b) \<and>
     list_all (level_tracked b BID_SIDE) (bids b) \<and>
     list_all (level_tracked b ASK_SIDE) (asks b)"

section \<open>The processor (include/mbo\_processor.h, src/mbo\_processor.cpp)\<close>

text \<open>
  The processor's state: the book, the rows written so far (a row is the index
  \<open>mbp_record_count\<close> it is written with and the record; the list stands for the
  output buffer together with what has been flushed to the file), the two counters and
  the validation switch. Rendering a row as text formats prices in floating point and is
  not modelled; neither are the performance counters, which nothing reads back.
\<close>

record MBOProcessor =
  order_book :: OrderBook
  output_rows :: "(64 word \<times> MBPRecord) list"
  record_count :: "64 word"
  mbp_record_count :: "64 word"
  validate_output :: bool

definition MBOProcessor_new :: MBOProcessor where
  "MBOProcessor_new =
     \<lparr>order_book = OrderBook_new, output_rows = [], record_count = 0,
      mbp_record_count = 0, validate_output = True\<rparr>"

fun validate_levels :: "nat list \<Rightarrow> MBPRecord \<Rightarrow> error option" where
  "validate_levels [] r = None"
| "validate_levels (i # rest) r =
     (if bid_prices r ! i \<noteq> kUndefPrice \<and> (bid_sizes r ! i = 0 \<or> bid_counts r ! i = 0)
      then Some (InvalidBidLevel i)
      else if ask_prices r ! i \<noteq> kUndefPrice \<and> (ask_sizes r ! i = 0 \<or> ask_counts r ! i = 0)
      then Some (InvalidAskLevel i)
      else validate_levels rest r)"

definition ValidateMBPRecord :: "MBPRecord \<Rightarrow> error option" where
  "ValidateMBPRecord r =
     (if mbp_rtype r \<noteq> 10 then Some (InvalidRType (mbp_rtype r))
      else if \<not> IsValidAction (mbp_action r) then Some (InvalidMBPAction (mbp_action r))
      else if \<not> IsValidSide (mbp_side r) then Some (InvalidMBPSide (mbp_side r))
      else validate_levels [0 ..< MBP_LEVELS] r)"

definition WriteMBPRecord :: "MBPRecord \<Rightarrow> MBOProcessor \<Rightarrow> MBOProcessor outcome" where
  "WriteMBPRecord r p =
     (case (if validate_output p then ValidateMBPRecord r else None) of
        Some e \<Rightarrow> Thrown e p
      | None \<Rightarrow> Done (p\<lparr>output_rows := output_rows p @ [(mbp_record_count p, r)]\<rparr>))"

definition CreateMBPRecord :: "MBORecord \<Rightarrow> MBOProcessor \<Rightarrow> MBPRecord \<times> MBOProcessor" where
  "CreateMBPRecord mbo p =
     (case GetTopBids MBP_LEVELS (order_book p) of (top_bids, b1) \<Rightarrow>
      case GetTopAsks MBP_LEVELS b1 of (top_asks, b2) \<Rightarrow>
        (FromOrderBook mbo top_bids top_asks, p\<lparr>order_book := b2\<rparr>))"

definition HandleSpecialCase :: "MBORecord \<Rightarrow> MBOProcessor \<Rightarrow> (bool \<times> MBOProcessor) outcome" where
  "HandleSpecialCase r p =
     (if mbo_action r = ACTION_CLEAR
      then (let p1 = p\<lparr>order_book := Clear (order_book p),
                       record_count := record_count p + 1\<rparr>
            in case CreateMBPRecord r p1 of (mbp, p2) \<Rightarrow>
                 (case WriteMBPRecord mbp p2 of
                    Thrown e p3 \<Rightarrow> Thrown e (True, p3)
                  | Done p3 \<Rightarrow>
                      Done (True, p3\<lparr>mbp_record_count := mbp_record_count p3 + 1\<rparr>)))
      else Done (False, p))"

definition emits :: "char \<Rightarrow> bool" where
  "emits action \<longleftrightarrow>
     action = ACTION_ADD \<or> action = ACTION_CANCEL \<or> action = ACTION_CLEAR \<or>
     action = ACTION_TRADE"

definition ProcessRecord :: "MBORecord \<Rightarrow> MBOProcessor \<Rightarrow> MBOProcessor outcome" where
  "ProcessRecord r p =
     (case HandleSpecialCase r p of
        Thrown e (handled, p1) \<Rightarrow> Thrown e p1
      | Done (True, p1) \<Rightarrow> Done p1
      | Done (False, p1) \<Rightarrow>
          (case Apply r (order_book p1) of
             Thrown e b \<Rightarrow> Thrown e (p1\<lparr>order_book := b\<rparr>)
           | Done b \<Rightarrow>
               (let p2 = p1\<lparr>order_book := b, record_count := record_count p1 + 1\<rparr>
                in if emits (mbo_action r) \<and> HasChanges (order_book p2)
                   then (case CreateMBPRecord r p2 of (mbp, p3) \<Rightarrow>
                           (case WriteMBPRecord mbp p3 of
                              Thrown e p4 \<Rightarrow> Thrown e p4
                            | Done p4 \<Rightarrow>
                                Done (p4\<lparr>order_book := ResetChanges (order_book p4),
                                         mbp_record_count := mbp_record_count p4 + 1\<rparr>)))
                   else Done p2)))"

text \<open>
  The loop of \<open>ProcessFile\<close> over the parsed events of the input: an exception of
  \<open>ProcessRecord\<close> is caught and reported on the error stream, and the loop goes on
  with the processor as the throw left it. The second component is the error stream.
\<close>

fun ProcessFile :: "MBORecord list \<Rightarrow> MBOProcessor \<times> error list \<Rightarrow> MBOProcessor \<times> error list" where
  "ProcessFile [] s = s"
| "ProcessFile (r # rs) (p, errs) =
     (case ProcessRecord r p of
        Done p1 \<Rightarrow> ProcessFile rs (p1, errs)
      | Thrown e p1 \<Rightarrow> ProcessFile rs (p1, errs @ [e]))"

text \<open>A trace of events applied to the book alone, each throw caught as the loop does.\<close>

fun apply_trace :: "MBORecord list \<Rightarrow> OrderBook \<Rightarrow> OrderBook" where
  "apply_trace [] b = b"
| "apply_trace (r # rs) b = apply_trace rs (state_of (Apply r b))"

text \<open>An event with the given action, side, order id, price and size, and no metadata.\<close>

definition event :: "char \<Rightarrow> char \<Rightarrow> OrderID \<Rightarrow> Price \<Rightarrow> Size \<Rightarrow> MBORecord" where
  "event a s order_id p sz =
     \<lparr>mbo_ts_recv = [], mbo_ts_event = [], mbo_rtype = 160, mbo_publisher_id = 0,
      mbo_instrument_id = 0, mbo_action = a, mbo_side = s, mbo_price = p, mbo_size = sz,
      mbo_channel_id = 0, mbo_order_id = order_id, mbo_flags = 0, mbo_ts_in_delta = 0,
      mbo_sequence = 0, mbo_symbol = []\<rparr>"

section \<open>Properties of rows, levels and books\<close>

text \<open>
  A slot of a row is well formed when a price other than \<open>kUndefPrice\<close> comes with a
  size and a count that are both positive; a row is well formed when its ten bid slots
  and its ten ask slots are.
\<close>

definition slot_ok :: "Price \<Rightarrow> Size \<Rightarrow> 32 word \<Rightarrow> bool" where
  "slot_ok p s c \<longleftrightarrow> (p \<noteq> kUndefPrice \<longrightarrow> 0 < s \<and> 0 < c)"

definition well_formed_row :: "MBPRecord \<Rightarrow> bool" where
  "well_formed_row r \<longleftrightarrow>
     list_all (\<lambda>i. slot_ok (bid_prices r ! i) (bid_sizes r ! i) (bid_counts r ! i) \<and>
                   slot_ok (ask_prices r ! i) (ask_sizes r ! i) (ask_counts r ! i))
       [0 ..< MBP_LEVELS]"

text \<open>
  The sum of the sizes stored in a level, as a natural number, and the two readings of
  the level sum: the exact one, and the one modulo \<open>2 ^ 32\<close>, the width of
  \<open>total_size\<close> and \<open>order_count\<close> in the source.
\<close>

definition sum_sizes :: "(OrderID \<times> Size) list \<Rightarrow> nat" where
  "sum_sizes al = sum_list (map (\<lambda>e. unat (snd e)) al)"

definition level_sum_exact :: "PriceLevel \<Rightarrow> bool" where
  "level_sum_exact l \<longleftrightarrow>
     unat (total_size l) = sum_sizes (orders l) \<and> unat (order_count l) = length (orders l)"

definition level_sum_mod :: "PriceLevel \<Rightarrow> bool" where
  "level_sum_mod l \<longleftrightarrow>
     distinct (map fst (orders l)) \<and>
     unat (total_size l) = sum_sizes (orders l) mod 2 ^ 32 \<and>
     unat (order_count l) = length (orders l) mod 2 ^ 32"

definition all_levels :: "OrderBook \<Rightarrow> PriceLevel list" where
  "all_levels b = map snd (bids b) @ map snd (asks b)"

text \<open>
  The invariant of the book that every event keeps, thrown or not: each side is sorted
  by its comparator, each stored level carries its key as price (or the undefined one),
  has one entry per order and the level sums, and each order stored in a level is in the
  order lookup with the price and side of that level.
\<close>

definition lvl_ok :: "PriceLevel \<Rightarrow> bool" where
  "lvl_ok l \<longleftrightarrow>
     distinct (map fst (orders l)) \<and>
     total_size l = of_nat (sum_sizes (orders l)) \<and>
     order_count l = of_nat (length (orders l))"

definition levels_ok ::
  "(OrderID \<times> Price \<times> char) list \<Rightarrow> char \<Rightarrow> (Price \<Rightarrow> Price \<Rightarrow> bool) \<Rightarrow> Levels \<Rightarrow> bool" where
  "levels_ok idx side cmp m \<longleftrightarrow>
     sorted_wrt cmp (map fst m) \<and>
     (\<forall>(p, l) \<in> set m.
        lvl_ok l \<and> (price l = p \<or> price l = kUndefPrice) \<and>
        (\<forall>order_id \<in> fst ` set (orders l). map_of idx order_id = Some (p, side)))"

definition book_inv :: "OrderBook \<Rightarrow> bool" where
  "book_inv b \<longleftrightarrow>
     levels_ok (order_lookup b) BID_SIDE greater_Price (bids b) \<and>
     levels_ok (order_lookup b) ASK_SIDE less_Price (asks b)"

definition no_level_has :: "OrderID \<Rightarrow> OrderBook \<Rightarrow> bool" where
  "no_level_has order_id b \<longleftrightarrow>
     (\<forall>l \<in> set (all_levels b). order_id \<notin> fst ` set (orders l))"

text \<open>The levels a top-of-book query returns: the first \<open>k\<close> that are not empty.\<close>

definition first_nonempty :: "nat \<Rightarrow> Levels \<Rightarrow> CompactPriceLevel list" where
  "first_nonempty k m =
     take k (map CompactPriceLevel_of (filter (\<lambda>l. \<not> PriceLevel_IsEmpty l) (map snd m)))"

text \<open>
  Two notions used to reason about the processor: \<open>rows_ok\<close>, the validation switch
  is on and every row written so far is well formed, and \<open>emit_step\<close>, the part of
  \<open>ProcessRecord\<close> that follows a successful \<open>Apply\<close>.
\<close>

definition rows_ok :: "MBOProcessor \<Rightarrow> bool" where
  "rows_ok p \<longleftrightarrow>
     validate_output p \<and> list_all (\<lambda>row. well_formed_row (snd row)) (output_rows p)"

definition emit_step :: "MBORecord \<Rightarrow> MBOProcessor \<Rightarrow> MBOProcessor outcome" where
  "emit_step r p2 =
     (if emits (mbo_action r) \<and> HasChanges (order_book p2)
      then (case CreateMBPRecord r p2 of (mbp, p3) \<Rightarrow>
              (case WriteMBPRecord mbp p3 of
                 Thrown e p4 \<Rightarrow> Thrown e p4
               | Done p4 \<Rightarrow>
                   Done (p4\<lparr>order_book := ResetChanges (order_book p4),
                            mbp_record_count := mbp_record_count p4 + 1\<rparr>)))
      else Done p2)"

text \<open>What the proofs need of a comparator of a side book: a strict linear order.\<close>

definition strict_order :: "(Price \<Rightarrow> Price \<Rightarrow> bool) \<Rightarrow> bool" where
  "strict_order cmp \<longleftrightarrow>
     (\<forall>a. \<not> cmp a a) \<and> (\<forall>a b c. cmp a b \<longrightarrow> cmp b c \<longrightarrow> cmp a c) \<and>
     (\<forall>a b. a \<noteq> b \<longrightarrow> cmp a b \<or> cmp b a)"

section \<open>Evaluating the model\<close>

lemmas const_defs = MBP_LEVELS_def kUndefPrice_def BID_SIDE_def ASK_SIDE_def NEUTRAL_SIDE_def
  ACTION_ADD_def ACTION_CANCEL_def ACTION_MODIFY_def ACTION_TRADE_def ACTION_FILL_def
  ACTION_CLEAR_def ACTION_NONE_def

lemmas valid_defs = IsValid_def IsValidAction_def IsValidSide_def IsValidPrice_def
  IsValidSize_def word_sless_alt

lemmas level_defs = PriceLevel_default_def PriceLevel_IsEmpty_def PriceLevel_AddOrder_def
  PriceLevel_RemoveOrder_def PriceLevel_ModifyOrder_def PriceLevel_GetOrderSize_def
  PriceLevel_HasOrder_def set_level_price_def

lemmas book_defs = event_def OrderBook_new_def Apply_def AddOrder_def CancelOrder_def
  ModifyOrder_def Clear_def GetOrCreateLevel_def at_level_def MarkChanged_def
  RemoveEmptyLevel_def erase_if_empty_def greater_Price_def less_Price_def

section \<open>The level layer does not reject a duplicate\<close>

text \<open>
  C7 (counterexample). A level holding order 1 with size 2 is given \<open>AddOrder(1, 3)\<close>:
  the call is not rejected. The stored size becomes 3, \<open>total_size\<close> 5 and
  \<open>order_count\<close> 2, with still one entry in the map.
\<close>

theorem level_add_duplicate_counterexample:
  "PriceLevel_HasOrder 1
     \<lparr>price = 10000000000, total_size = 2, order_count = 1, orders = [(1, 2)]\<rparr> \<and>
   PriceLevel_AddOrder 1 3
     \<lparr>price = 10000000000, total_size = 2, order_count = 1, orders = [(1, 2)]\<rparr>
   = \<lparr>price = 10000000000, total_size = 5, order_count = 2, orders = [(1, 3)]\<rparr>"
  by (simp add: level_defs)

text \<open>
  C7 (amended). \<open>PriceLevel::AddOrder\<close> makes no duplicate check. For an order id
  that the level already holds it overwrites the stored size, adds the new size to
  \<open>total_size\<close> (wrapping at 32 bits) and increments \<open>order_count\<close>, while the
  keys of the map, and so the number of its entries, stay as they were. The duplicate is
  rejected one layer up: \<open>OrderBook::AddOrder\<close> throws, with the book untouched, when
  the order id is in the order lookup.
\<close>

theorem level_add_duplicate_overwrites:
  "(PriceLevel_HasOrder order_id l \<longrightarrow>
      order_count (PriceLevel_AddOrder order_id sz l) = order_count l + 1 \<and>
      total_size (PriceLevel_AddOrder order_id sz l) = total_size l + sz \<and>
      PriceLevel_GetOrderSize order_id (PriceLevel_AddOrder order_id sz l) = sz \<and>
      map fst (orders (PriceLevel_AddOrder order_id sz l)) = map fst (orders l) \<and>
      price (PriceLevel_AddOrder order_id sz l) = price l) \<and>
   (map_of (order_lookup b) (mbo_order_id r) \<noteq> None \<longrightarrow>
      AddOrder r b = Thrown (OrderExists (mbo_order_id r)) b)"
proof -
  have keys: "map fst (AList.update order_id sz (orders l)) = map fst (orders l)"
    if "map_of (orders l) order_id \<noteq> None"
    using that by (simp add: update_keys map_of_eq_None_iff)
  show ?thesis
    by (simp add: level_defs AddOrder_def update_conv' keys)
qed

theorem level_add_duplicate_overwrites_witness:
  "PriceLevel_HasOrder 7
     \<lparr>price = 10000000000, total_size = 6, order_count = 2, orders = [(7, 2), (8, 4)]\<rparr> \<and>
   order_count (PriceLevel_AddOrder 7 3
     \<lparr>price = 10000000000, total_size = 6, order_count = 2, orders = [(7, 2), (8, 4)]\<rparr>) = 3 \<and>
   total_size (PriceLevel_AddOrder 7 3
     \<lparr>price = 10000000000, total_size = 6, order_count = 2, orders = [(7, 2), (8, 4)]\<rparr>) = 9 \<and>
   map fst (orders (PriceLevel_AddOrder 7 3
     \<lparr>price = 10000000000, total_size = 6, order_count = 2, orders = [(7, 2), (8, 4)]\<rparr>))
     = [7, 8] \<and>
   map_of (order_lookup (apply_trace [event ACTION_ADD BID_SIDE 1 10000000000 2] OrderBook_new))
     (mbo_order_id (event ACTION_ADD BID_SIDE 1 10000000000 3)) = Some (10000000000, BID_SIDE) \<and>
   AddOrder (event ACTION_ADD BID_SIDE 1 10000000000 3)
     (apply_trace [event ACTION_ADD BID_SIDE 1 10000000000 2] OrderBook_new)
   = Thrown (OrderExists 1) (apply_trace [event ACTION_ADD BID_SIDE 1 10000000000 2] OrderBook_new)"
  using level_add_duplicate_overwrites
    [of 7 "\<lparr>price = 10000000000, total_size = 6, order_count = 2, orders = [(7, 2), (8, 4)]\<rparr>"
        3 "apply_trace [event ACTION_ADD BID_SIDE 1 10000000000 2] OrderBook_new"
        "event ACTION_ADD BID_SIDE 1 10000000000 3"]
  by (simp add: const_defs valid_defs level_defs book_defs)

section \<open>A Modify that names the neutral side\<close>

text \<open>
  C3. Order 1 rests on the bid side at price 10. The event Modify with the neutral side
  passes \<open>IsValid\<close> (the neutral side is a valid side), takes the move branch of
  \<open>ModifyOrder\<close>, removes the order from its level, erases the level, and only then
  \<open>GetOrCreateLevel\<close> throws on the side: the bid book has lost the level while the
  order lookup still holds the order.
\<close>

theorem modify_neutral_side_not_atomic:
  "IsValid (event ACTION_MODIFY NEUTRAL_SIDE 1 10000000000 2) \<and>
   apply_trace [event ACTION_ADD BID_SIDE 1 10000000000 2] OrderBook_new
   = \<lparr>bids = [(10000000000,
                \<lparr>price = 10000000000, total_size = 2, order_count = 1, orders = [(1, 2)]\<rparr>)],
      asks = [], order_lookup = [(1, 10000000000, BID_SIDE)], has_changes = True,
      bid_levels_cache = [], ask_levels_cache = []\<rparr> \<and>
   Apply (event ACTION_MODIFY NEUTRAL_SIDE 1 10000000000 2)
     (apply_trace [event ACTION_ADD BID_SIDE 1 10000000000 2] OrderBook_new)
   = Thrown (InvalidSide NEUTRAL_SIDE)
       \<lparr>bids = [], asks = [], order_lookup = [(1, 10000000000, BID_SIDE)],
        has_changes = True, bid_levels_cache = [], ask_levels_cache = []\<rparr>"
  by (simp add: const_defs valid_defs level_defs book_defs)

text \<open>
  C4. After the same two events the order lookup names a level that the bid book does not
  hold, and the book's own \<open>ValidateConsistency\<close> fails.
\<close>

theorem lookup_incoherent_after_failed_modify:
  "order_lookup (apply_trace [event ACTION_ADD BID_SIDE 1 10000000000 2,
                              event ACTION_MODIFY NEUTRAL_SIDE 1 10000000000 2] OrderBook_new)
   = [(1, 10000000000, BID_SIDE)] \<and>
   bids (apply_trace [event ACTION_ADD BID_SIDE 1 10000000000 2,
                      event ACTION_MODIFY NEUTRAL_SIDE 1 10000000000 2] OrderBook_new) = [] \<and>
   \<not> ValidateConsistency
        (apply_trace [event ACTION_ADD BID_SIDE 1 10000000000 2,
                      event ACTION_MODIFY NEUTRAL_SIDE 1 10000000000 2] OrderBook_new)"
  by (simp add: const_defs valid_defs level_defs book_defs ValidateConsistency_def
      lookup_entry_ok_def)

text \<open>
  C8. A further Modify of order 1, at its recorded price and side, takes the same-level
  branch: \<open>GetOrCreateLevel\<close> creates the missing level and \<open>PriceLevel::ModifyOrder\<close>
  does nothing, so an empty level stays in the bid book. From that state Add and Cancel
  of the unknown order 2 at that price both return, and erase the level: the bid book is
  not the one they started from.
\<close>

theorem add_cancel_erases_stale_level:
  "map_of (order_lookup
     (apply_trace [event ACTION_ADD BID_SIDE 1 10000000000 2,
                   event ACTION_MODIFY NEUTRAL_SIDE 1 10000000000 2,
                   event ACTION_MODIFY BID_SIDE 1 10000000000 2] OrderBook_new)) 2 = None \<and>
   bids (apply_trace [event ACTION_ADD BID_SIDE 1 10000000000 2,
                      event ACTION_MODIFY NEUTRAL_SIDE 1 10000000000 2,
                      event ACTION_MODIFY BID_SIDE 1 10000000000 2] OrderBook_new)
   = [(10000000000, \<lparr>price = 10000000000, total_size = 0, order_count = 0, orders = []\<rparr>)] \<and>
   \<not> has_thrown (Apply (event ACTION_ADD BID_SIDE 2 10000000000 5)
     (apply_trace [event ACTION_ADD BID_SIDE 1 10000000000 2,
                   event ACTION_MODIFY NEUTRAL_SIDE 1 10000000000 2,
                   event ACTION_MODIFY BID_SIDE 1 10000000000 2] OrderBook_new)) \<and>
   \<not> has_thrown (Apply (event ACTION_CANCEL BID_SIDE 2 10000000000 5)
     (apply_trace [event ACTION_ADD BID_SIDE 1 10000000000 2,
                   event ACTION_MODIFY NEUTRAL_SIDE 1 10000000000 2,
                   event ACTION_MODIFY BID_SIDE 1 10000000000 2,
                   event ACTION_ADD BID_SIDE 2 10000000000 5] OrderBook_new)) \<and>
   bids (apply_trace [event ACTION_ADD BID_SIDE 1 10000000000 2,
                      event ACTION_MODIFY NEUTRAL_SIDE 1 10000000000 2,
                      event ACTION_MODIFY BID_SIDE 1 10000000000 2,
                      event ACTION_ADD BID_SIDE 2 10000000000 5,
                      event ACTION_CANCEL BID_SIDE 2 10000000000 5] OrderBook_new) = []"
  by (simp add: const_defs valid_defs level_defs book_defs)

section \<open>Rows that reach the output\<close>

lemma validate_levels_None:
  "validate_levels ns r = None \<Longrightarrow>
     list_all (\<lambda>i. slot_ok (bid_prices r ! i) (bid_sizes r ! i) (bid_counts r ! i) \<and>
                   slot_ok (ask_prices r ! i) (ask_sizes r ! i) (ask_counts r ! i)) ns"
  by (induction ns) (auto simp: slot_ok_def word_greater_zero_iff split: if_splits)

lemma validate_levels_Some:
  "list_all (\<lambda>i. slot_ok (bid_prices r ! i) (bid_sizes r ! i) (bid_counts r ! i) \<and>
                   slot_ok (ask_prices r ! i) (ask_sizes r ! i) (ask_counts r ! i)) ns
   \<Longrightarrow> validate_levels ns r = None"
  by (induction ns) (auto simp: slot_ok_def word_greater_zero_iff split: if_splits)

lemma ValidateMBPRecord_None: "ValidateMBPRecord r = None \<Longrightarrow> well_formed_row r"
  by (auto simp: ValidateMBPRecord_def well_formed_row_def split: if_splits
      dest: validate_levels_None)

lemma WriteMBPRecord_rejects:
  "validate_output p \<Longrightarrow> \<not> well_formed_row r \<Longrightarrow>
     has_thrown (WriteMBPRecord r p) \<and> state_of (WriteMBPRecord r p) = p"
  using ValidateMBPRecord_None [of r]
  by (cases "ValidateMBPRecord r") (auto simp: WriteMBPRecord_def)

lemma WriteMBPRecord_rows_ok:
  "rows_ok p \<Longrightarrow> rows_ok (state_of (WriteMBPRecord r p))"
  using ValidateMBPRecord_None [of r]
  by (cases "ValidateMBPRecord r") (auto simp: WriteMBPRecord_def rows_ok_def)

lemma CreateMBPRecord_frame:
  "output_rows (snd (CreateMBPRecord r p)) = output_rows p"
  "validate_output (snd (CreateMBPRecord r p)) = validate_output p"
  "record_count (snd (CreateMBPRecord r p)) = record_count p"
  "mbp_record_count (snd (CreateMBPRecord r p)) = mbp_record_count p"
  by (simp_all add: CreateMBPRecord_def GetTopBids_def GetTopAsks_def Let_def split: prod.splits)


lemma HandleSpecialCase_rows_ok:
  "rows_ok p \<Longrightarrow> rows_ok (snd (state_of (HandleSpecialCase r p)))"
proof -
  assume ok: "rows_ok p"
  let ?p1 = "p\<lparr>order_book := Clear (order_book p), record_count := record_count p + 1\<rparr>"
  obtain mbp p2 where c: "CreateMBPRecord r ?p1 = (mbp, p2)" by (cases "CreateMBPRecord r ?p1")
  have "rows_ok p2"
    using ok CreateMBPRecord_frame(1,2) [of r ?p1] c by (simp add: rows_ok_def)
  then have "rows_ok (state_of (WriteMBPRecord mbp p2))" by (rule WriteMBPRecord_rows_ok)
  then show ?thesis
    using ok c by (cases "WriteMBPRecord mbp p2") (auto simp: HandleSpecialCase_def rows_ok_def)
qed

lemma HandleSpecialCase_not_clear:
  "mbo_action r \<noteq> ACTION_CLEAR \<Longrightarrow> HandleSpecialCase r p = Done (False, p)"
  by (simp add: HandleSpecialCase_def)

lemma HandleSpecialCase_clear_handled:
  "mbo_action r = ACTION_CLEAR \<Longrightarrow> fst (state_of (HandleSpecialCase r p))"
  by (auto simp: HandleSpecialCase_def Let_def split: prod.splits outcome.splits)

lemma ProcessRecord_clear:
  "mbo_action r = ACTION_CLEAR \<Longrightarrow>
     state_of (ProcessRecord r p) = snd (state_of (HandleSpecialCase r p))"
  using HandleSpecialCase_clear_handled [of r p]
  by (cases "HandleSpecialCase r p") (auto simp: ProcessRecord_def split: bool.splits)

lemma ProcessRecord_not_clear:
  "mbo_action r \<noteq> ACTION_CLEAR \<Longrightarrow>
     ProcessRecord r p =
       (case Apply r (order_book p) of
          Thrown e b \<Rightarrow> Thrown e (p\<lparr>order_book := b\<rparr>)
        | Done b \<Rightarrow> emit_step r (p\<lparr>order_book := b, record_count := record_count p + 1\<rparr>))"
  by (simp add: ProcessRecord_def HandleSpecialCase_not_clear emit_step_def Let_def
      split: outcome.splits)

lemma emit_step_rows_ok: "rows_ok p \<Longrightarrow> rows_ok (state_of (emit_step r p))"
proof -
  assume ok: "rows_ok p"
  obtain mbp p3 where c: "CreateMBPRecord r p = (mbp, p3)" by (cases "CreateMBPRecord r p")
  have "rows_ok p3"
    using ok CreateMBPRecord_frame(1,2) [of r p] c by (simp add: rows_ok_def)
  then have "rows_ok (state_of (WriteMBPRecord mbp p3))" by (rule WriteMBPRecord_rows_ok)
  then show ?thesis
    using ok c by (cases "WriteMBPRecord mbp p3") (auto simp: emit_step_def rows_ok_def)
qed

lemma ProcessRecord_rows_ok: "rows_ok p \<Longrightarrow> rows_ok (state_of (ProcessRecord r p))"
proof (cases "mbo_action r = ACTION_CLEAR")
  case True
  assume "rows_ok p"
  then show ?thesis using True by (simp add: ProcessRecord_clear HandleSpecialCase_rows_ok)
next
  case False
  assume ok: "rows_ok p"
  show ?thesis
  proof (cases "Apply r (order_book p)")
    case (Done b)
    have "rows_ok (p\<lparr>order_book := b, record_count := record_count p + 1\<rparr>)"
      using ok by (simp add: rows_ok_def)
    then show ?thesis
      using False Done by (simp add: ProcessRecord_not_clear emit_step_rows_ok)
  next
    case (Thrown e b)
    then show ?thesis using False ok by (simp add: ProcessRecord_not_clear rows_ok_def)
  qed
qed

lemma ProcessFile_rows_ok:
  "rows_ok p \<Longrightarrow> rows_ok (fst (ProcessFile rs (p, errs)))"
proof (induction rs arbitrary: p errs)
  case Nil
  then show ?case by simp
next
  case (Cons r rs)
  have "rows_ok (state_of (ProcessRecord r p))"
    using Cons.prems by (rule ProcessRecord_rows_ok)
  then show ?case
    by (cases "ProcessRecord r p") (simp_all add: Cons.IH)
qed


text \<open>
  C10. With output validation on, every row that the processor appends to the output is
  well formed: from a processor whose rows are well formed, and so from a new one,
  whatever the events. A candidate record that is not well formed makes
  \<open>WriteMBPRecord\<close> throw with the processor, and so the output, unchanged.
\<close>

theorem written_rows_well_formed:
  "(validate_output p \<longrightarrow> list_all (\<lambda>row. well_formed_row (snd row)) (output_rows p) \<longrightarrow>
      list_all (\<lambda>row. well_formed_row (snd row))
        (output_rows (fst (ProcessFile rs (p, errs))))) \<and>
   (validate_output p \<longrightarrow> \<not> well_formed_row r \<longrightarrow>
      has_thrown (WriteMBPRecord r p) \<and> state_of (WriteMBPRecord r p) = p) \<and>
   list_all (\<lambda>row. well_formed_row (snd row))
     (output_rows (fst (ProcessFile rs (MBOProcessor_new, []))))"
proof -
  have "rows_ok MBOProcessor_new" by (simp add: rows_ok_def MBOProcessor_new_def)
  then have "rows_ok (fst (ProcessFile rs (MBOProcessor_new, [])))"
    by (rule ProcessFile_rows_ok)
  then show ?thesis
    using ProcessFile_rows_ok [of p rs errs] WriteMBPRecord_rejects [of p r]
    by (simp add: rows_ok_def)
qed


theorem written_rows_well_formed_witness:
  "validate_output MBOProcessor_new \<and>
   list_all (\<lambda>row. well_formed_row (snd row)) (output_rows MBOProcessor_new) \<and>
   list_all (\<lambda>row. well_formed_row (snd row))
     (output_rows (fst (ProcessFile
        [event ACTION_ADD BID_SIDE 1 10000000000 2147483648,
         event ACTION_ADD BID_SIDE 2 10000000000 2147483648] (MBOProcessor_new, [])))) \<and>
   length (output_rows (fst (ProcessFile
        [event ACTION_ADD BID_SIDE 1 10000000000 2147483648,
         event ACTION_ADD BID_SIDE 2 10000000000 2147483648] (MBOProcessor_new, [])))) = 1 \<and>
   snd (ProcessFile
        [event ACTION_ADD BID_SIDE 1 10000000000 2147483648,
         event ACTION_ADD BID_SIDE 2 10000000000 2147483648] (MBOProcessor_new, []))
     = [InvalidBidLevel 0] \<and>
   \<not> well_formed_row
        (FromOrderBook (event ACTION_ADD BID_SIDE 2 10000000000 2147483648)
           [\<lparr>c_price = 10000000000, c_size = 0, c_count = 2\<rparr>] []) \<and>
   has_thrown (WriteMBPRecord
        (FromOrderBook (event ACTION_ADD BID_SIDE 2 10000000000 2147483648)
           [\<lparr>c_price = 10000000000, c_size = 0, c_count = 2\<rparr>] []) MBOProcessor_new) \<and>
   state_of (WriteMBPRecord
        (FromOrderBook (event ACTION_ADD BID_SIDE 2 10000000000 2147483648)
           [\<lparr>c_price = 10000000000, c_size = 0, c_count = 2\<rparr>] []) MBOProcessor_new)
     = MBOProcessor_new"
proof -
  let ?rs = "[event ACTION_ADD BID_SIDE 1 10000000000 2147483648,
              event ACTION_ADD BID_SIDE 2 10000000000 2147483648]"
  let ?r = "FromOrderBook (event ACTION_ADD BID_SIDE 2 10000000000 2147483648)
              [\<lparr>c_price = 10000000000, c_size = 0, c_count = 2\<rparr>] []"
  have v: "validate_output MBOProcessor_new" by code_simp
  have e: "list_all (\<lambda>row. well_formed_row (snd row)) (output_rows MBOProcessor_new)"
    by code_simp
  have n: "\<not> well_formed_row ?r" by code_simp
  have l: "length (output_rows (fst (ProcessFile ?rs (MBOProcessor_new, [])))) = 1"
    by code_simp
  have s: "snd (ProcessFile ?rs (MBOProcessor_new, [])) = [InvalidBidLevel 0]"
    by code_simp
  note t = written_rows_well_formed [of MBOProcessor_new ?rs "[]" ?r]
  show ?thesis using t v e n l s by blast
qed

section \<open>The emission gate\<close>

lemma CreateMBPRecord_book_only:
  "order_book p' = order_book p \<Longrightarrow> fst (CreateMBPRecord r p') = fst (CreateMBPRecord r p)"
  by (simp add: CreateMBPRecord_def GetTopBids_def GetTopAsks_def Let_def split: prod.splits)

lemma CreateMBPRecord_book_frame:
  "bids (order_book (snd (CreateMBPRecord r p))) = bids (order_book p)"
  "asks (order_book (snd (CreateMBPRecord r p))) = asks (order_book p)"
  "order_lookup (order_book (snd (CreateMBPRecord r p))) = order_lookup (order_book p)"
  "has_changes (order_book (snd (CreateMBPRecord r p))) = has_changes (order_book p)"
  by (simp_all add: CreateMBPRecord_def GetTopBids_def GetTopAsks_def Let_def split: prod.splits)

lemma WriteMBPRecord_cases:
  "WriteMBPRecord mbp p =
     (if validate_output p \<longrightarrow> ValidateMBPRecord mbp = None
      then Done (p\<lparr>output_rows := output_rows p @ [(mbp_record_count p, mbp)]\<rparr>)
      else Thrown (the (ValidateMBPRecord mbp)) p)"
  by (cases "ValidateMBPRecord mbp") (auto simp: WriteMBPRecord_def)

lemma emit_step_output:
  "output_rows (state_of (emit_step r p)) =
     output_rows p @
       (if emits (mbo_action r) \<and> has_changes (order_book p) \<and>
           (validate_output p \<longrightarrow> ValidateMBPRecord (fst (CreateMBPRecord r p)) = None)
        then [(mbp_record_count p, fst (CreateMBPRecord r p))] else [])"
proof -
  obtain mbp p3 where c: "CreateMBPRecord r p = (mbp, p3)" by (cases "CreateMBPRecord r p")
  have f: "output_rows p3 = output_rows p" "validate_output p3 = validate_output p"
    "mbp_record_count p3 = mbp_record_count p"
    using CreateMBPRecord_frame(1,2,4) [of r p] c by simp_all
  show ?thesis
    by (simp add: emit_step_def c WriteMBPRecord_cases f HasChanges_def)
qed

lemma emit_step_book:
  "bids (order_book (state_of (emit_step r p))) = bids (order_book p) \<and>
   asks (order_book (state_of (emit_step r p))) = asks (order_book p) \<and>
   order_lookup (order_book (state_of (emit_step r p))) = order_lookup (order_book p)"
proof -
  obtain mbp p3 where c: "CreateMBPRecord r p = (mbp, p3)" by (cases "CreateMBPRecord r p")
  have f: "bids (order_book p3) = bids (order_book p)" "asks (order_book p3) = asks (order_book p)"
    "order_lookup (order_book p3) = order_lookup (order_book p)"
    using CreateMBPRecord_book_frame(1,2,3) [of r p] c by simp_all
  show ?thesis
    by (simp add: emit_step_def c WriteMBPRecord_cases f ResetChanges_def)
qed

lemma foldl_SetBidLevel_meta:
  "mbp_depth (foldl (\<lambda>r i. SetBidLevel i (f i) (g i) (h i) r) r0 ns) = mbp_depth r0"
  by (induction ns arbitrary: r0) (simp_all add: SetBidLevel_def)

lemma foldl_SetAskLevel_meta:
  "mbp_depth (foldl (\<lambda>r i. SetAskLevel i (f i) (g i) (h i) r) r0 ns) = mbp_depth r0"
  by (induction ns arbitrary: r0) (simp_all add: SetAskLevel_def)

lemma FromOrderBook_depth:
  "mbp_depth (FromOrderBook mbo bs as) = (if mbo_action mbo = ACTION_CANCEL then 1 else 0)"
  by (simp add: FromOrderBook_def Let_def foldl_SetBidLevel_meta foldl_SetAskLevel_meta)

lemma CreateMBPRecord_depth:
  "mbp_depth (fst (CreateMBPRecord r p)) = (if mbo_action r = ACTION_CANCEL then 1 else 0)"
  by (simp add: CreateMBPRecord_def GetTopBids_def GetTopAsks_def Let_def FromOrderBook_depth
      split: prod.splits)

lemma validate_levels_all_undef:
  "\<forall>i \<in> set ns. bid_prices r ! i = kUndefPrice \<and> ask_prices r ! i = kUndefPrice
   \<Longrightarrow> validate_levels ns r = None"
  by (induction ns) simp_all

lemma CreateMBPRecord_empty_book:
  assumes "bids (order_book p) = []" "asks (order_book p) = []"
  shows "bid_prices (fst (CreateMBPRecord r p)) = replicate MBP_LEVELS kUndefPrice"
    and "bid_sizes (fst (CreateMBPRecord r p)) = replicate MBP_LEVELS 0"
    and "bid_counts (fst (CreateMBPRecord r p)) = replicate MBP_LEVELS 0"
    and "ask_prices (fst (CreateMBPRecord r p)) = replicate MBP_LEVELS kUndefPrice"
    and "ask_sizes (fst (CreateMBPRecord r p)) = replicate MBP_LEVELS 0"
    and "ask_counts (fst (CreateMBPRecord r p)) = replicate MBP_LEVELS 0"
    and "mbp_rtype (fst (CreateMBPRecord r p)) = 10"
    and "mbp_action (fst (CreateMBPRecord r p)) = mbo_action r"
    and "mbp_side (fst (CreateMBPRecord r p)) = mbo_side r"
  using assms
  by (simp_all add: CreateMBPRecord_def GetTopBids_def GetTopAsks_def Let_def FromOrderBook_def)

lemma CreateMBPRecord_empty_book_valid:
  assumes "bids (order_book p) = []" "asks (order_book p) = []" "IsValid r"
  shows "ValidateMBPRecord (fst (CreateMBPRecord r p)) = None"
proof -
  have "validate_levels [0 ..< MBP_LEVELS] (fst (CreateMBPRecord r p)) = None"
    by (rule validate_levels_all_undef)
      (simp add: CreateMBPRecord_empty_book [OF assms(1,2)])
  then show ?thesis
    using assms(3) by (simp add: ValidateMBPRecord_def CreateMBPRecord_empty_book [OF assms(1,2)]
        IsValid_def)
qed

lemma Apply_cancel_unknown:
  "mbo_action r = ACTION_CANCEL \<Longrightarrow> IsValid r \<Longrightarrow>
     map_of (order_lookup b) (mbo_order_id r) = None \<Longrightarrow> Apply r b = Done b"
  by (simp add: Apply_def CancelOrder_def const_defs)


text \<open>
  C1 (counterexample). The event \<open>C,B,999\<close> at price 5 with size 1 is the first event
  of a new processor. The book is empty and the order is unknown; \<open>CancelOrder\<close>
  returns without marking a change, the gate \<open>HasChanges\<close> is closed, and
  \<open>ProcessRecord\<close> returns with the record counted and no row written.
\<close>

theorem cancel_unknown_on_new_processor_counterexample:
  "mbo_action (event ACTION_CANCEL BID_SIDE 999 5000000000 1) = ACTION_CANCEL \<and>
   IsValid (event ACTION_CANCEL BID_SIDE 999 5000000000 1) \<and>
   bids (order_book MBOProcessor_new) = [] \<and> asks (order_book MBOProcessor_new) = [] \<and>
   order_lookup (order_book MBOProcessor_new) = [] \<and>
   ProcessRecord (event ACTION_CANCEL BID_SIDE 999 5000000000 1) MBOProcessor_new
     = Done (MBOProcessor_new\<lparr>record_count := 1\<rparr>) \<and>
   output_rows (MBOProcessor_new\<lparr>record_count := 1\<rparr>) = []"
  by code_simp


text \<open>
  C1 (amended). For a valid Cancel of an order id that is not in the order lookup,
  \<open>Apply\<close> returns with the book unchanged, change flag included, and
  \<open>ProcessRecord\<close> leaves both side books and the lookup as they were. A row is
  written for the event exactly when the change flag was still set from an earlier event
  (and the candidate row passes output validation when that is on); it is then the
  single row appended, with \<open>depth = 1\<close>. With no stale change there is no row. On an
  empty book the candidate row passes validation and all its price slots are empty.
\<close>

theorem cancel_unknown_order:
  "mbo_action r = ACTION_CANCEL \<Longrightarrow> IsValid r \<Longrightarrow>
   map_of (order_lookup (order_book p)) (mbo_order_id r) = None \<Longrightarrow>
     Apply r (order_book p) = Done (order_book p) \<and>
     bids (order_book (state_of (ProcessRecord r p))) = bids (order_book p) \<and>
     asks (order_book (state_of (ProcessRecord r p))) = asks (order_book p) \<and>
     order_lookup (order_book (state_of (ProcessRecord r p))) = order_lookup (order_book p) \<and>
     output_rows (state_of (ProcessRecord r p)) =
       output_rows p @
         (if has_changes (order_book p) \<and>
             (validate_output p \<longrightarrow> ValidateMBPRecord (fst (CreateMBPRecord r p)) = None)
          then [(mbp_record_count p, fst (CreateMBPRecord r p))] else []) \<and>
     mbp_depth (fst (CreateMBPRecord r p)) = 1 \<and>
     (bids (order_book p) = [] \<and> asks (order_book p) = [] \<longrightarrow>
        ValidateMBPRecord (fst (CreateMBPRecord r p)) = None \<and>
        bid_prices (fst (CreateMBPRecord r p)) = replicate MBP_LEVELS kUndefPrice \<and>
        bid_sizes (fst (CreateMBPRecord r p)) = replicate MBP_LEVELS 0 \<and>
        bid_counts (fst (CreateMBPRecord r p)) = replicate MBP_LEVELS 0 \<and>
        ask_prices (fst (CreateMBPRecord r p)) = replicate MBP_LEVELS kUndefPrice \<and>
        ask_sizes (fst (CreateMBPRecord r p)) = replicate MBP_LEVELS 0 \<and>
        ask_counts (fst (CreateMBPRecord r p)) = replicate MBP_LEVELS 0)"
proof -
  assume a: "mbo_action r = ACTION_CANCEL" and v: "IsValid r"
    and n: "map_of (order_lookup (order_book p)) (mbo_order_id r) = None"
  let ?p2 = "p\<lparr>order_book := order_book p, record_count := record_count p + 1\<rparr>"
  have ap: "Apply r (order_book p) = Done (order_book p)"
    using a v n by (rule Apply_cancel_unknown)
  have nc: "mbo_action r \<noteq> ACTION_CLEAR" using a by (simp add: const_defs)
  have pr: "ProcessRecord r p = emit_step r ?p2"
    by (simp add: ProcessRecord_not_clear [OF nc] ap)
  have cr: "fst (CreateMBPRecord r ?p2) = fst (CreateMBPRecord r p)"
    by (rule CreateMBPRecord_book_only) simp
  have em: "emits (mbo_action r)" using a by (simp add: emits_def)
  have out: "output_rows (state_of (ProcessRecord r p)) =
       output_rows p @
         (if has_changes (order_book p) \<and>
             (validate_output p \<longrightarrow> ValidateMBPRecord (fst (CreateMBPRecord r p)) = None)
          then [(mbp_record_count p, fst (CreateMBPRecord r p))] else [])"
    unfolding pr emit_step_output cr using em by simp
  have bk: "bids (order_book (state_of (ProcessRecord r p))) = bids (order_book p) \<and>
     asks (order_book (state_of (ProcessRecord r p))) = asks (order_book p) \<and>
     order_lookup (order_book (state_of (ProcessRecord r p))) = order_lookup (order_book p)"
    unfolding pr using emit_step_book [of r ?p2] by simp
  have dp: "mbp_depth (fst (CreateMBPRecord r p)) = 1"
    using a by (simp add: CreateMBPRecord_depth)
  show ?thesis
    using ap out bk dp CreateMBPRecord_empty_book_valid [of p r, OF _ _ v]
      CreateMBPRecord_empty_book [of p r]
    by simp
qed


theorem cancel_unknown_order_witness:
  "mbo_action (event ACTION_CANCEL BID_SIDE 999 5000000000 1) = ACTION_CANCEL \<and>
   IsValid (event ACTION_CANCEL BID_SIDE 999 5000000000 1) \<and>
   map_of (order_lookup (order_book MBOProcessor_new))
     (mbo_order_id (event ACTION_CANCEL BID_SIDE 999 5000000000 1)) = None \<and>
   output_rows (state_of (ProcessRecord (event ACTION_CANCEL BID_SIDE 999 5000000000 1)
     MBOProcessor_new)) = [] \<and>
   has_changes (order_book (fst (ProcessFile [event ACTION_CLEAR NEUTRAL_SIDE 0 0 0]
     (MBOProcessor_new, [])))) \<and>
   map_of (order_lookup (order_book (fst (ProcessFile [event ACTION_CLEAR NEUTRAL_SIDE 0 0 0]
     (MBOProcessor_new, [])))))
     (mbo_order_id (event ACTION_CANCEL BID_SIDE 999 5000000000 1)) = None \<and>
   output_rows (state_of (ProcessRecord (event ACTION_CANCEL BID_SIDE 999 5000000000 1)
     (fst (ProcessFile [event ACTION_CLEAR NEUTRAL_SIDE 0 0 0] (MBOProcessor_new, [])))))
   = output_rows (fst (ProcessFile [event ACTION_CLEAR NEUTRAL_SIDE 0 0 0]
       (MBOProcessor_new, []))) @
     [(1, fst (CreateMBPRecord (event ACTION_CANCEL BID_SIDE 999 5000000000 1)
        (fst (ProcessFile [event ACTION_CLEAR NEUTRAL_SIDE 0 0 0] (MBOProcessor_new, [])))))] \<and>
   mbp_depth (fst (CreateMBPRecord (event ACTION_CANCEL BID_SIDE 999 5000000000 1)
        (fst (ProcessFile [event ACTION_CLEAR NEUTRAL_SIDE 0 0 0] (MBOProcessor_new, []))))) = 1 \<and>
   bid_prices (fst (CreateMBPRecord (event ACTION_CANCEL BID_SIDE 999 5000000000 1)
        (fst (ProcessFile [event ACTION_CLEAR NEUTRAL_SIDE 0 0 0] (MBOProcessor_new, [])))))
   = replicate MBP_LEVELS kUndefPrice \<and>
   ask_prices (fst (CreateMBPRecord (event ACTION_CANCEL BID_SIDE 999 5000000000 1)
        (fst (ProcessFile [event ACTION_CLEAR NEUTRAL_SIDE 0 0 0] (MBOProcessor_new, [])))))
   = replicate MBP_LEVELS kUndefPrice"
proof -
  let ?ev = "event ACTION_CANCEL BID_SIDE 999 5000000000 1"
  let ?p1 = "fst (ProcessFile [event ACTION_CLEAR NEUTRAL_SIDE 0 0 0] (MBOProcessor_new, []))"
  have a: "mbo_action ?ev = ACTION_CANCEL" by code_simp
  have v: "IsValid ?ev" by code_simp
  have n0: "map_of (order_lookup (order_book MBOProcessor_new)) (mbo_order_id ?ev) = None"
    by code_simp
  have d0: "\<not> has_changes (order_book MBOProcessor_new)" by code_simp
  have n1: "map_of (order_lookup (order_book ?p1)) (mbo_order_id ?ev) = None" by code_simp
  have d1: "has_changes (order_book ?p1)" by code_simp
  have e1: "bids (order_book ?p1) = []" "asks (order_book ?p1) = []" by code_simp+
  have c1: "mbp_record_count ?p1 = 1" by code_simp
  have o0: "output_rows MBOProcessor_new = []" by code_simp
  note t0 = cancel_unknown_order [OF a v n0]
  note t1 = cancel_unknown_order [OF a v n1]
  have r0: "output_rows (state_of (ProcessRecord ?ev MBOProcessor_new)) = []"
    using t0 d0 o0 by simp
  show ?thesis
    using a v n0 r0 n1 d1 t1 e1 c1 by simp
qed


text \<open>
  C2 (counterexample). A Modify of the unknown order 1 is treated as an Add: it marks the
  book changed and, being a Modify, writes no row and leaves the flag set. The Trade that
  follows changes nothing, finds the flag set and writes row 0.
\<close>

theorem trade_after_modify_counterexample:
  "mbo_action (event ACTION_TRADE NEUTRAL_SIDE 0 10000000000 2) = ACTION_TRADE \<and>
   output_rows (fst (ProcessFile [event ACTION_MODIFY BID_SIDE 1 10000000000 2]
     (MBOProcessor_new, []))) = [] \<and>
   map (\<lambda>row. (fst row, mbp_action (snd row), mbp_order_id (snd row)))
     (output_rows (fst (ProcessFile
        [event ACTION_MODIFY BID_SIDE 1 10000000000 2,
         event ACTION_TRADE NEUTRAL_SIDE 0 10000000000 2] (MBOProcessor_new, []))))
   = [(0, ACTION_TRADE, 0)]"
  by code_simp


text \<open>
  C2 (amended). A Trade never changes the book nor the change flag: \<open>Apply\<close> returns
  the book as it was (or throws on an invalid record, the book as it was). A valid Trade
  writes a row exactly when the change flag was already set when it arrived (left by an
  earlier Modify or Clear, which do not reset it) and the candidate row passes output
  validation; with the flag clear on arrival a Trade writes no row.
\<close>

theorem trade_emits_on_stale_changes:
  "mbo_action r = ACTION_TRADE \<Longrightarrow>
     state_of (Apply r (order_book p)) = order_book p \<and>
     (IsValid r \<longrightarrow> Apply r (order_book p) = Done (order_book p)) \<and>
     bids (order_book (state_of (ProcessRecord r p))) = bids (order_book p) \<and>
     asks (order_book (state_of (ProcessRecord r p))) = asks (order_book p) \<and>
     order_lookup (order_book (state_of (ProcessRecord r p))) = order_lookup (order_book p) \<and>
     output_rows (state_of (ProcessRecord r p)) =
       output_rows p @
         (if IsValid r \<and> has_changes (order_book p) \<and>
             (validate_output p \<longrightarrow> ValidateMBPRecord (fst (CreateMBPRecord r p)) = None)
          then [(mbp_record_count p, fst (CreateMBPRecord r p))] else []) \<and>
     (\<not> has_changes (order_book p) \<longrightarrow>
        output_rows (state_of (ProcessRecord r p)) = output_rows p)"
proof -
  assume a: "mbo_action r = ACTION_TRADE"
  let ?p2 = "p\<lparr>order_book := order_book p, record_count := record_count p + 1\<rparr>"
  have nc: "mbo_action r \<noteq> ACTION_CLEAR" using a by (simp add: const_defs)
  have ap: "Apply r (order_book p) =
      (if IsValid r then Done (order_book p) else Thrown InvalidRecord (order_book p))"
    using a by (simp add: Apply_def const_defs)
  have em: "emits (mbo_action r)" using a by (simp add: emits_def)
  have cr: "fst (CreateMBPRecord r ?p2) = fst (CreateMBPRecord r p)"
    by (rule CreateMBPRecord_book_only) simp
  show ?thesis
  proof (cases "IsValid r")
    case True
    have pr: "ProcessRecord r p = emit_step r ?p2"
      using True by (simp add: ProcessRecord_not_clear [OF nc] ap)
    have out: "output_rows (state_of (ProcessRecord r p)) =
       output_rows p @
         (if has_changes (order_book p) \<and>
             (validate_output p \<longrightarrow> ValidateMBPRecord (fst (CreateMBPRecord r p)) = None)
          then [(mbp_record_count p, fst (CreateMBPRecord r p))] else [])"
      unfolding pr emit_step_output cr using em by simp
    show ?thesis
      using True ap out emit_step_book [of r ?p2] by (simp add: pr)
  next
    case False
    have pr: "ProcessRecord r p = Thrown InvalidRecord p"
      using False by (simp add: ProcessRecord_not_clear [OF nc] ap)
    show ?thesis using False ap by (simp add: pr)
  qed
qed

theorem trade_emits_on_stale_changes_witness:
  "mbo_action (event ACTION_TRADE NEUTRAL_SIDE 0 10000000000 2) = ACTION_TRADE \<and>
   IsValid (event ACTION_TRADE NEUTRAL_SIDE 0 10000000000 2) \<and>
   \<not> has_changes (order_book MBOProcessor_new) \<and>
   Apply (event ACTION_TRADE NEUTRAL_SIDE 0 10000000000 2) (order_book MBOProcessor_new)
     = Done (order_book MBOProcessor_new) \<and>
   output_rows (state_of (ProcessRecord (event ACTION_TRADE NEUTRAL_SIDE 0 10000000000 2)
     MBOProcessor_new)) = output_rows MBOProcessor_new \<and>
   has_changes (order_book (fst (ProcessFile [event ACTION_MODIFY BID_SIDE 1 10000000000 2]
     (MBOProcessor_new, [])))) \<and>
   output_rows (state_of (ProcessRecord (event ACTION_TRADE NEUTRAL_SIDE 0 10000000000 2)
     (fst (ProcessFile [event ACTION_MODIFY BID_SIDE 1 10000000000 2] (MBOProcessor_new, [])))))
   = output_rows (fst (ProcessFile [event ACTION_MODIFY BID_SIDE 1 10000000000 2]
       (MBOProcessor_new, []))) @
     [(0, fst (CreateMBPRecord (event ACTION_TRADE NEUTRAL_SIDE 0 10000000000 2)
        (fst (ProcessFile [event ACTION_MODIFY BID_SIDE 1 10000000000 2]
           (MBOProcessor_new, [])))))]"
proof -
  let ?ev = "event ACTION_TRADE NEUTRAL_SIDE 0 10000000000 2"
  let ?p1 = "fst (ProcessFile [event ACTION_MODIFY BID_SIDE 1 10000000000 2]
     (MBOProcessor_new, []))"
  have a: "mbo_action ?ev = ACTION_TRADE" by code_simp
  have v: "IsValid ?ev" by code_simp
  have d0: "\<not> has_changes (order_book MBOProcessor_new)" by code_simp
  have d1: "has_changes (order_book ?p1)" by code_simp
  have c1: "mbp_record_count ?p1 = 0" by code_simp
  have ok: "ValidateMBPRecord (fst (CreateMBPRecord ?ev ?p1)) = None" by code_simp
  note t0 = trade_emits_on_stale_changes [OF a, of MBOProcessor_new]
  note t1 = trade_emits_on_stale_changes [OF a, of ?p1]
  show ?thesis
    using a v d0 d1 c1 ok t0 t1 by simp
qed


section \<open>Duplicate Add\<close>

text \<open>
  C5 (counterexample). Order 1 rests in the book and an Add of order 1 arrives with size
  0. \<open>Apply\<close> checks \<open>IsValid\<close> before \<open>AddOrder\<close> looks the order up, so the
  error thrown is \<open>InvalidRecord\<close>, not the one of a duplicate Add.
\<close>

theorem invalid_duplicate_add_counterexample:
  "mbo_action (event ACTION_ADD BID_SIDE 1 10000000000 0) = ACTION_ADD \<and>
   map_of (order_lookup (apply_trace [event ACTION_ADD BID_SIDE 1 10000000000 2] OrderBook_new))
     (mbo_order_id (event ACTION_ADD BID_SIDE 1 10000000000 0))
     = Some (10000000000, BID_SIDE) \<and>
   Apply (event ACTION_ADD BID_SIDE 1 10000000000 0)
     (apply_trace [event ACTION_ADD BID_SIDE 1 10000000000 2] OrderBook_new)
   = Thrown InvalidRecord
       (apply_trace [event ACTION_ADD BID_SIDE 1 10000000000 2] OrderBook_new)"
  by (simp add: const_defs valid_defs level_defs book_defs)

text \<open>
  C5 (amended). An Add whose order id is in the order lookup makes \<open>Apply\<close> throw with
  the book unchanged: the error is \<open>OrderExists\<close> for a record that passes
  \<open>IsValid\<close> (a record that does not is refused by the validation that comes first).
  \<open>ProcessRecord\<close> throws with the whole processor unchanged, so no row is written,
  and the loop of \<open>ProcessFile\<close> reports the error and goes on with the next event.
  After \<open>A,B,1,10,2\<close> and \<open>A,B,1,10,3\<close> one row has been written, one error
  reported, and the level at price 10 has \<open>total_size = 2\<close> and \<open>order_count = 1\<close>.
\<close>

theorem duplicate_add_skipped:
  "mbo_action r = ACTION_ADD \<Longrightarrow>
   map_of (order_lookup (order_book p)) (mbo_order_id r) \<noteq> None \<Longrightarrow>
     has_thrown (Apply r (order_book p)) \<and>
     state_of (Apply r (order_book p)) = order_book p \<and>
     (IsValid r \<longrightarrow>
        Apply r (order_book p) = Thrown (OrderExists (mbo_order_id r)) (order_book p)) \<and>
     (\<exists>e. ProcessRecord r p = Thrown e p \<and>
          ProcessFile (r # rs) (p, errs) = ProcessFile rs (p, errs @ [e])) \<and>
     length (output_rows (fst (ProcessFile
        [event ACTION_ADD BID_SIDE 1 10000000000 2,
         event ACTION_ADD BID_SIDE 1 10000000000 3] (MBOProcessor_new, [])))) = 1 \<and>
     snd (ProcessFile
        [event ACTION_ADD BID_SIDE 1 10000000000 2,
         event ACTION_ADD BID_SIDE 1 10000000000 3] (MBOProcessor_new, []))
       = [OrderExists 1] \<and>
     bids (order_book (fst (ProcessFile
        [event ACTION_ADD BID_SIDE 1 10000000000 2,
         event ACTION_ADD BID_SIDE 1 10000000000 3] (MBOProcessor_new, []))))
       = [(10000000000,
           \<lparr>price = 10000000000, total_size = 2, order_count = 1, orders = [(1, 2)]\<rparr>)]"
proof -
  assume a: "mbo_action r = ACTION_ADD"
    and d: "map_of (order_lookup (order_book p)) (mbo_order_id r) \<noteq> None"
  let ?e = "if IsValid r then OrderExists (mbo_order_id r) else InvalidRecord"
  have nc: "mbo_action r \<noteq> ACTION_CLEAR" using a by (simp add: const_defs)
  have ap: "Apply r (order_book p) = Thrown ?e (order_book p)"
    using a d by (simp add: Apply_def AddOrder_def)
  have pr: "ProcessRecord r p = Thrown ?e p"
    by (simp add: ProcessRecord_not_clear [OF nc] ap)
  have pf: "ProcessFile (r # rs) (p, errs) = ProcessFile rs (p, errs @ [?e])"
    by (simp add: pr)
  have ex: "\<exists>e. ProcessRecord r p = Thrown e p \<and>
          ProcessFile (r # rs) (p, errs) = ProcessFile rs (p, errs @ [e])"
    using pr pf by blast
  have c1: "length (output_rows (fst (ProcessFile
        [event ACTION_ADD BID_SIDE 1 10000000000 2,
         event ACTION_ADD BID_SIDE 1 10000000000 3] (MBOProcessor_new, [])))) = 1"
    by code_simp
  have c2: "snd (ProcessFile
        [event ACTION_ADD BID_SIDE 1 10000000000 2,
         event ACTION_ADD BID_SIDE 1 10000000000 3] (MBOProcessor_new, []))
       = [OrderExists 1]"
    by code_simp
  have c3: "bids (order_book (fst (ProcessFile
        [event ACTION_ADD BID_SIDE 1 10000000000 2,
         event ACTION_ADD BID_SIDE 1 10000000000 3] (MBOProcessor_new, []))))
       = [(10000000000,
           \<lparr>price = 10000000000, total_size = 2, order_count = 1, orders = [(1, 2)]\<rparr>)]"
    by code_simp
  show ?thesis
    using ex c1 c2 c3 by (simp add: ap)
qed

theorem duplicate_add_skipped_witness:
  "mbo_action (event ACTION_ADD BID_SIDE 1 10000000000 3) = ACTION_ADD \<and>
   IsValid (event ACTION_ADD BID_SIDE 1 10000000000 3) \<and>
   map_of (order_lookup (order_book (fst (ProcessFile [event ACTION_ADD BID_SIDE 1 10000000000 2]
      (MBOProcessor_new, [])))))
     (mbo_order_id (event ACTION_ADD BID_SIDE 1 10000000000 3)) = Some (10000000000, BID_SIDE) \<and>
   Apply (event ACTION_ADD BID_SIDE 1 10000000000 3)
     (order_book (fst (ProcessFile [event ACTION_ADD BID_SIDE 1 10000000000 2]
        (MBOProcessor_new, []))))
   = Thrown (OrderExists 1)
       (order_book (fst (ProcessFile [event ACTION_ADD BID_SIDE 1 10000000000 2]
          (MBOProcessor_new, [])))) \<and>
   state_of (ProcessRecord (event ACTION_ADD BID_SIDE 1 10000000000 3)
     (fst (ProcessFile [event ACTION_ADD BID_SIDE 1 10000000000 2] (MBOProcessor_new, []))))
   = fst (ProcessFile [event ACTION_ADD BID_SIDE 1 10000000000 2] (MBOProcessor_new, []))"
proof -
  let ?ev = "event ACTION_ADD BID_SIDE 1 10000000000 3"
  let ?p1 = "fst (ProcessFile [event ACTION_ADD BID_SIDE 1 10000000000 2]
     (MBOProcessor_new, []))"
  have a: "mbo_action ?ev = ACTION_ADD" by code_simp
  have v: "IsValid ?ev" by code_simp
  have i: "mbo_order_id ?ev = 1" by code_simp
  have d: "map_of (order_lookup (order_book ?p1)) (mbo_order_id ?ev)
      = Some (10000000000, BID_SIDE)" by code_simp
  then have d': "map_of (order_lookup (order_book ?p1)) (mbo_order_id ?ev) \<noteq> None" by simp
  note t = duplicate_add_skipped [OF a d', of "[]" "[]"]
  from t obtain e where "ProcessRecord ?ev ?p1 = Thrown e ?p1" by blast
  then have s: "state_of (ProcessRecord ?ev ?p1) = ?p1" by simp
  show ?thesis
    using a v d t s i by simp
qed

section \<open>The invariant of the book\<close>

lemma strict_order_greater: "strict_order greater_Price"
  unfolding strict_order_def greater_Price_def
  by (auto intro: signed.less_trans)

lemma strict_order_less: "strict_order less_Price"
  unfolding strict_order_def less_Price_def
  by (auto intro: signed.less_trans)

subsection \<open>Sizes stored in a level\<close>

lemma sum_sizes_update_new:
  "k \<notin> fst ` set al \<Longrightarrow>
     sum_sizes (AList.update k v al) = sum_sizes al + unat v \<and>
     length (AList.update k v al) = Suc (length al)"
  by (induction al) (auto simp: sum_sizes_def)

lemma sum_sizes_update_present:
  "map_of al k = Some old \<Longrightarrow>
     sum_sizes (AList.update k v al) + unat old = sum_sizes al + unat v \<and>
     length (AList.update k v al) = length al"
  by (induction al) (auto simp: sum_sizes_def split: if_splits)

lemma sum_sizes_delete:
  "distinct (map fst al) \<Longrightarrow> map_of al k = Some v \<Longrightarrow>
     sum_sizes al = sum_sizes (AList.delete k al) + unat v \<and>
     length al = Suc (length (AList.delete k al))"
proof (induction al)
  case Nil
  then show ?case by simp
next
  case (Cons e al)
  show ?case
  proof (cases "fst e = k")
    case True
    then have "k \<notin> fst ` set al" using Cons.prems(1) by auto
    then have "AList.delete k al = al" by simp
    then show ?thesis using True Cons.prems(2) by (cases e) (auto simp: sum_sizes_def)
  next
    case False
    then show ?thesis using Cons by (cases e) (auto simp: sum_sizes_def)
  qed
qed


subsection \<open>Operations of a level\<close>

lemma lvl_ok_default: "lvl_ok PriceLevel_default"
  by (simp add: lvl_ok_def PriceLevel_default_def sum_sizes_def)

lemma lvl_ok_set_level_price: "lvl_ok (set_level_price p l) = lvl_ok l"
  by (simp add: lvl_ok_def set_level_price_def)

lemma orders_set_level_price: "orders (set_level_price p l) = orders l"
  by (simp add: set_level_price_def)

lemma price_set_level_price:
  "price l = p \<or> price l = kUndefPrice \<Longrightarrow> price (set_level_price p l) = p"
  by (auto simp: set_level_price_def)

lemma lvl_ok_AddOrder:
  assumes "lvl_ok l" "order_id \<notin> fst ` set (orders l)"
  shows "lvl_ok (PriceLevel_AddOrder order_id sz l)"
proof -
  have "of_nat (sum_sizes (orders l) + unat sz) = (of_nat (sum_sizes (orders l)) :: Size) + sz"
    by simp
  then show ?thesis
    using assms sum_sizes_update_new [OF assms(2), of sz]
    by (simp add: lvl_ok_def PriceLevel_AddOrder_def distinct_update)
qed

lemma keys_AddOrder:
  "fst ` set (orders (PriceLevel_AddOrder order_id sz l)) = insert order_id (fst ` set (orders l))"
  by (simp add: PriceLevel_AddOrder_def dom_update)

lemma price_AddOrder: "price (PriceLevel_AddOrder order_id sz l) = price l"
  by (simp add: PriceLevel_AddOrder_def)

lemma lvl_ok_ModifyOrder:
  assumes "lvl_ok l"
  shows "lvl_ok (PriceLevel_ModifyOrder order_id sz l)"
proof (cases "map_of (orders l) order_id")
  case None
  then show ?thesis using assms by (simp add: PriceLevel_ModifyOrder_def)
next
  case (Some old)
  note u = sum_sizes_update_present [OF Some, of sz]
  have "(of_nat (sum_sizes (AList.update order_id sz (orders l)) + unat old) :: Size)
      = of_nat (sum_sizes (orders l) + unat sz)"
    using u by simp
  then have "(of_nat (sum_sizes (AList.update order_id sz (orders l))) :: Size) + old
      = of_nat (sum_sizes (orders l)) + sz"
    by simp
  then have "(of_nat (sum_sizes (AList.update order_id sz (orders l))) :: Size)
      = of_nat (sum_sizes (orders l)) - old + sz"
    by (simp add: algebra_simps)
  then show ?thesis
    using assms Some u by (simp add: lvl_ok_def PriceLevel_ModifyOrder_def distinct_update)
qed

lemma keys_ModifyOrder:
  "fst ` set (orders (PriceLevel_ModifyOrder order_id sz l)) = fst ` set (orders l)"
proof (cases "map_of (orders l) order_id")
  case None
  then show ?thesis by (simp add: PriceLevel_ModifyOrder_def)
next
  case (Some old)
  then have "order_id \<in> fst ` set (orders l)" by (force dest: map_of_SomeD)
  then show ?thesis using Some by (auto simp: PriceLevel_ModifyOrder_def dom_update)
qed

lemma price_ModifyOrder: "price (PriceLevel_ModifyOrder order_id sz l) = price l"
  by (simp add: PriceLevel_ModifyOrder_def split: option.splits)

lemma lvl_ok_RemoveOrder:
  assumes "lvl_ok l" "\<not> PriceLevel_IsEmpty (PriceLevel_RemoveOrder order_id l)"
  shows "lvl_ok (PriceLevel_RemoveOrder order_id l)"
proof (cases "map_of (orders l) order_id")
  case None
  then show ?thesis using assms by (simp add: PriceLevel_RemoveOrder_def)
next
  case (Some old)
  have d: "distinct (map fst (orders l))" using assms(1) by (simp add: lvl_ok_def)
  note u = sum_sizes_delete [OF d Some]
  have "(of_nat (sum_sizes (orders l)) :: Size)
      = of_nat (sum_sizes (AList.delete order_id (orders l))) + old"
    using u by simp
  then have t: "(of_nat (sum_sizes (AList.delete order_id (orders l))) :: Size)
      = of_nat (sum_sizes (orders l)) - old"
    by simp
  have "(of_nat (length (orders l)) :: 32 word)
      = of_nat (length (AList.delete order_id (orders l))) + 1"
    using u by simp
  then have c: "(of_nat (length (AList.delete order_id (orders l))) :: 32 word)
      = of_nat (length (orders l)) - 1"
    by simp
  show ?thesis
    using assms Some t c d
    by (auto simp: lvl_ok_def PriceLevel_RemoveOrder_def PriceLevel_IsEmpty_def Let_def
        distinct_delete split: if_splits)
qed

lemma keys_RemoveOrder:
  "fst ` set (orders (PriceLevel_RemoveOrder order_id l)) = fst ` set (orders l) - {order_id}"
proof (cases "map_of (orders l) order_id")
  case None
  then have "order_id \<notin> fst ` set (orders l)" by (simp add: map_of_eq_None_iff)
  then show ?thesis using None by (simp add: PriceLevel_RemoveOrder_def)
next
  case (Some old)
  have "fst ` set (AList.delete order_id (orders l)) = fst ` set (orders l) - {order_id}"
    by (auto simp: AList.delete_eq)
  then show ?thesis using Some by (simp add: PriceLevel_RemoveOrder_def Let_def)
qed

lemma price_RemoveOrder:
  "price (PriceLevel_RemoveOrder order_id l) = price l \<or>
   price (PriceLevel_RemoveOrder order_id l) = kUndefPrice"
  by (simp add: PriceLevel_RemoveOrder_def Let_def split: option.splits)


subsection \<open>Operations of a side book\<close>

lemma set_map_subscript:
  "set (map_subscript cmp k m) \<subseteq> insert (k, PriceLevel_default) (set m)"
  by (induction m) (auto split: if_splits)

lemma keys_map_subscript:
  "set (map fst (map_subscript cmp k m)) = insert k (set (map fst m))"
  by (induction m) (force split: if_splits)+

lemma sorted_map_subscript:
  assumes "strict_order cmp"
  shows "sorted_wrt cmp (map fst m) \<Longrightarrow> sorted_wrt cmp (map fst (map_subscript cmp k m))"
proof (induction m)
  case Nil
  show ?case by simp
next
  case (Cons e m)
  obtain k' v where e: "e = (k', v)" by (cases e)
  have tr: "\<And>a b c. cmp a b \<Longrightarrow> cmp b c \<Longrightarrow> cmp a c"
    using assms unfolding strict_order_def by blast
  have tot: "\<And>a b. a \<noteq> b \<Longrightarrow> \<not> cmp a b \<Longrightarrow> cmp b a"
    using assms unfolding strict_order_def by blast
  from Cons.prems have hd: "\<forall>x \<in> set (map fst m). cmp k' x" and tl: "sorted_wrt cmp (map fst m)"
    by (simp_all add: e)
  show ?case
  proof (cases "k = k'")
    case True
    then show ?thesis using Cons.prems by (simp add: e)
  next
    case False
    show ?thesis
    proof (cases "cmp k k'")
      case True
      then have "\<forall>x \<in> set (map fst m). cmp k x" using hd tr by blast
      then show ?thesis using True False Cons.prems by (simp add: e)
    next
      case nlt: False
      have "cmp k' k" using tot [OF False nlt] .
      then have "\<forall>x \<in> set (map fst (map_subscript cmp k m)). cmp k' x"
        using hd by (simp only: keys_map_subscript) blast
      then show ?thesis using nlt False Cons.IH [OF tl] by (simp add: e)
    qed
  qed
qed

lemma distinct_of_sorted:
  assumes "strict_order cmp" "sorted_wrt cmp ks"
  shows "distinct ks"
  using assms(2)
proof (induction ks)
  case Nil
  show ?case by simp
next
  case (Cons k ks)
  have "\<And>a. \<not> cmp a a" using assms(1) unfolding strict_order_def by blast
  then show ?case using Cons by auto
qed

lemma keys_map_entry: "map fst (AList.map_entry k f m) = map fst m"
  by (induction m) auto

lemma set_map_entry:
  "e \<in> set (AList.map_entry k f m) \<Longrightarrow>
     e \<in> set m \<or> (\<exists>v. (k, v) \<in> set m \<and> e = (k, f v))"
  by (induction m) (auto split: if_splits)

lemma set_map_entry_key:
  "distinct (map fst m) \<Longrightarrow> (k, v') \<in> set (AList.map_entry k f m) \<Longrightarrow>
     \<exists>v. (k, v) \<in> set m \<and> v' = f v"
  by (induction m) (force split: if_splits)+

lemma sorted_delete:
  "sorted_wrt cmp (map fst m) \<Longrightarrow> sorted_wrt cmp (map fst (AList.delete k m))"
  by (simp add: delete_keys removeAll_filter_not_eq sorted_wrt_filter)

lemma set_delete: "set (AList.delete k m) = {e \<in> set m. fst e \<noteq> k}"
  by (auto simp: AList.delete_eq)

lemma sorted_erase_if_empty:
  "sorted_wrt cmp (map fst m) \<Longrightarrow> sorted_wrt cmp (map fst (erase_if_empty p m))"
  by (simp add: erase_if_empty_def sorted_delete split: option.splits)

lemma set_erase_if_empty: "set (erase_if_empty p m) \<subseteq> set m"
  by (auto simp: erase_if_empty_def set_delete split: option.splits)

lemma erase_if_empty_key:
  assumes "distinct (map fst m)" "(p, l) \<in> set (erase_if_empty p m)"
  shows "\<not> PriceLevel_IsEmpty l"
proof -
  have in_m: "(p, l) \<in> set m" using assms(2) set_erase_if_empty by blast
  then have "map_of m p = Some l" using assms(1) by simp
  then show ?thesis
    using assms(2) by (auto simp: erase_if_empty_def set_delete split: if_splits)
qed


subsection \<open>The invariant of one side\<close>

lemma levels_okI:
  assumes "sorted_wrt cmp (map fst m)"
    and "\<And>p l. (p, l) \<in> set m \<Longrightarrow>
           lvl_ok l \<and> (price l = p \<or> price l = kUndefPrice) \<and>
           (\<forall>order_id \<in> fst ` set (orders l). map_of idx order_id = Some (p, side))"
  shows "levels_ok idx side cmp m"
  using assms unfolding levels_ok_def by blast

lemma levels_okD:
  assumes "levels_ok idx side cmp m" "(p, l) \<in> set m"
  shows "lvl_ok l" and "price l = p \<or> price l = kUndefPrice"
    and "\<And>order_id. order_id \<in> fst ` set (orders l) \<Longrightarrow> map_of idx order_id = Some (p, side)"
  using assms unfolding levels_ok_def by blast+

lemma levels_ok_sorted: "levels_ok idx side cmp m \<Longrightarrow> sorted_wrt cmp (map fst m)"
  unfolding levels_ok_def by blast

lemma levels_ok_distinct:
  "strict_order cmp \<Longrightarrow> levels_ok idx side cmp m \<Longrightarrow> distinct (map fst m)"
  using distinct_of_sorted levels_ok_sorted by blast

lemma levels_ok_touch:
  assumes so: "strict_order cmp" and ok: "levels_ok idx side cmp m"
  shows "levels_ok idx side cmp
           (AList.map_entry p (set_level_price p) (map_subscript cmp p m))"
proof (rule levels_okI)
  show "sorted_wrt cmp (map fst (AList.map_entry p (set_level_price p) (map_subscript cmp p m)))"
    using sorted_map_subscript [OF so levels_ok_sorted [OF ok]] by (simp add: keys_map_entry)
next
  fix q l
  assume "(q, l) \<in> set (AList.map_entry p (set_level_price p) (map_subscript cmp p m))"
  then consider (old) "(q, l) \<in> set (map_subscript cmp p m)"
    | (new) v where "(p, v) \<in> set (map_subscript cmp p m)" "q = p" "l = set_level_price p v"
    using set_map_entry by fastforce
  then show "lvl_ok l \<and> (price l = q \<or> price l = kUndefPrice) \<and>
           (\<forall>order_id \<in> fst ` set (orders l). map_of idx order_id = Some (q, side))"
  proof cases
    case old
    then have "(q, l) \<in> set m \<or> (q, l) = (p, PriceLevel_default)"
      using set_map_subscript by blast
    then show ?thesis
      using levels_okD [OF ok, of q l]
      by (auto simp: lvl_ok_default) (simp_all add: PriceLevel_default_def)
  next
    case new
    then have "(p, v) \<in> set m \<or> v = PriceLevel_default"
      using set_map_subscript by blast
    then have "lvl_ok v \<and> (price v = p \<or> price v = kUndefPrice) \<and>
           (\<forall>order_id \<in> fst ` set (orders v). map_of idx order_id = Some (p, side))"
      using levels_okD [OF ok, of p v]
      by (auto simp: lvl_ok_default) (simp_all add: PriceLevel_default_def)
    then show ?thesis
      using new by (simp add: lvl_ok_set_level_price orders_set_level_price price_set_level_price)
  qed
qed

lemma levels_ok_remove:
  assumes so: "strict_order cmp" and ok: "levels_ok idx side cmp m"
  shows "levels_ok idx side cmp
           (erase_if_empty p (AList.map_entry p (PriceLevel_RemoveOrder order_id) m))"
proof (rule levels_okI)
  show "sorted_wrt cmp (map fst
          (erase_if_empty p (AList.map_entry p (PriceLevel_RemoveOrder order_id) m)))"
    using levels_ok_sorted [OF ok] by (simp add: sorted_erase_if_empty keys_map_entry)
next
  fix q l
  let ?m1 = "AList.map_entry p (PriceLevel_RemoveOrder order_id) m"
  assume in_e: "(q, l) \<in> set (erase_if_empty p ?m1)"
  then have in_1: "(q, l) \<in> set ?m1" using set_erase_if_empty by blast
  have d1: "distinct (map fst ?m1)"
    using levels_ok_distinct [OF so ok] by (simp add: keys_map_entry)
  from in_1 consider (old) "(q, l) \<in> set m"
    | (new) v where "(p, v) \<in> set m" "q = p" "l = PriceLevel_RemoveOrder order_id v"
    using set_map_entry by fastforce
  then show "lvl_ok l \<and> (price l = q \<or> price l = kUndefPrice) \<and>
           (\<forall>oid \<in> fst ` set (orders l). map_of idx oid = Some (q, side))"
  proof cases
    case old
    then show ?thesis using levels_okD [OF ok, of q l] by blast
  next
    case new
    have ne: "\<not> PriceLevel_IsEmpty l"
      using erase_if_empty_key [OF d1] in_e new(2) by blast
    have "lvl_ok l"
      using lvl_ok_RemoveOrder [OF levels_okD(1) [OF ok new(1)]] ne new(3) by blast
    moreover have "price l = q \<or> price l = kUndefPrice"
      using price_RemoveOrder [of order_id v] levels_okD(2) [OF ok new(1)] new(2,3) by auto
    moreover have "\<forall>oid \<in> fst ` set (orders l). map_of idx oid = Some (q, side)"
      using levels_okD(3) [OF ok new(1)] new(2,3) by (simp add: keys_RemoveOrder)
    ultimately show ?thesis by blast
  qed
qed

lemma levels_remove_gone:
  assumes so: "strict_order cmp" and ok: "levels_ok idx side cmp m"
    and at: "map_of idx order_id = Some (p, side)"
    and in_e: "(q, l) \<in> set (erase_if_empty p (AList.map_entry p (PriceLevel_RemoveOrder order_id) m))"
  shows "order_id \<notin> fst ` set (orders l)"
proof -
  let ?m1 = "AList.map_entry p (PriceLevel_RemoveOrder order_id) m"
  have in_1: "(q, l) \<in> set ?m1" using in_e set_erase_if_empty by blast
  have d: "distinct (map fst m)" using levels_ok_distinct [OF so ok] .
  show ?thesis
  proof (cases "q = p")
    case True
    then obtain v where "(p, v) \<in> set m" "l = PriceLevel_RemoveOrder order_id v"
      using set_map_entry_key [OF d] in_1 by blast
    then show ?thesis by (simp add: keys_RemoveOrder)
  next
    case False
    then have "(q, l) \<in> set m" using set_map_entry [OF in_1] by auto
    then show ?thesis using levels_okD(3) [OF ok, of q l order_id] at False by auto
  qed
qed

lemma levels_elsewhere_gone:
  assumes ok: "levels_ok idx side cmp m"
    and at: "map_of idx order_id = None \<or> (\<exists>p s. map_of idx order_id = Some (p, s) \<and> s \<noteq> side)"
    and in_m: "(q, l) \<in> set m"
  shows "order_id \<notin> fst ` set (orders l)"
proof
  assume "order_id \<in> fst ` set (orders l)"
  then have "map_of idx order_id = Some (q, side)" using levels_okD(3) [OF ok in_m] by blast
  then show False using at by auto
qed

lemma levels_ok_add:
  assumes ok: "levels_ok idx side cmp m"
    and fresh: "\<And>q l. (q, l) \<in> set m \<Longrightarrow> order_id \<notin> fst ` set (orders l)"
  shows "levels_ok (AList.update order_id (p, side) idx) side cmp
           (AList.map_entry p (PriceLevel_AddOrder order_id sz) m)"
proof (rule levels_okI)
  show "sorted_wrt cmp (map fst (AList.map_entry p (PriceLevel_AddOrder order_id sz) m))"
    using levels_ok_sorted [OF ok] by (simp add: keys_map_entry)
next
  fix q l
  assume "(q, l) \<in> set (AList.map_entry p (PriceLevel_AddOrder order_id sz) m)"
  then consider (old) "(q, l) \<in> set m"
    | (new) v where "(p, v) \<in> set m" "q = p" "l = PriceLevel_AddOrder order_id sz v"
    using set_map_entry by fastforce
  then show "lvl_ok l \<and> (price l = q \<or> price l = kUndefPrice) \<and>
           (\<forall>oid \<in> fst ` set (orders l).
              map_of (AList.update order_id (p, side) idx) oid = Some (q, side))"
  proof cases
    case old
    then show ?thesis
      using levels_okD [OF ok old] fresh [OF old] by (auto simp: update_conv')
  next
    case new
    have "lvl_ok l"
      using lvl_ok_AddOrder [OF levels_okD(1) [OF ok new(1)] fresh [OF new(1)]] new(3) by simp
    moreover have "price l = q \<or> price l = kUndefPrice"
      using levels_okD(2) [OF ok new(1)] new(2,3) by (simp add: price_AddOrder)
    moreover have "\<forall>oid \<in> fst ` set (orders l).
              map_of (AList.update order_id (p, side) idx) oid = Some (q, side)"
      using levels_okD(3) [OF ok new(1)] new(2,3) by (auto simp: keys_AddOrder update_conv')
    ultimately show ?thesis by blast
  qed
qed

lemma levels_ok_modify:
  assumes ok: "levels_ok idx side cmp m"
  shows "levels_ok idx side cmp (AList.map_entry p (PriceLevel_ModifyOrder order_id sz) m)"
proof (rule levels_okI)
  show "sorted_wrt cmp (map fst (AList.map_entry p (PriceLevel_ModifyOrder order_id sz) m))"
    using levels_ok_sorted [OF ok] by (simp add: keys_map_entry)
next
  fix q l
  assume "(q, l) \<in> set (AList.map_entry p (PriceLevel_ModifyOrder order_id sz) m)"
  then consider (old) "(q, l) \<in> set m"
    | (new) v where "(p, v) \<in> set m" "q = p" "l = PriceLevel_ModifyOrder order_id sz v"
    using set_map_entry by fastforce
  then show "lvl_ok l \<and> (price l = q \<or> price l = kUndefPrice) \<and>
           (\<forall>oid \<in> fst ` set (orders l). map_of idx oid = Some (q, side))"
  proof cases
    case old
    then show ?thesis using levels_okD [OF ok old] by blast
  next
    case new
    then show ?thesis
      using levels_okD [OF ok new(1)]
      by (simp add: lvl_ok_ModifyOrder keys_ModifyOrder price_ModifyOrder)
  qed
qed

lemma levels_ok_lookup_update:
  assumes ok: "levels_ok idx side cmp m"
    and fresh: "\<And>q l. (q, l) \<in> set m \<Longrightarrow> order_id \<notin> fst ` set (orders l)"
  shows "levels_ok (AList.update order_id loc idx) side cmp m"
proof (rule levels_okI)
  show "sorted_wrt cmp (map fst m)" using levels_ok_sorted [OF ok] .
next
  fix q l
  assume in_m: "(q, l) \<in> set m"
  show "lvl_ok l \<and> (price l = q \<or> price l = kUndefPrice) \<and>
           (\<forall>oid \<in> fst ` set (orders l). map_of (AList.update order_id loc idx) oid = Some (q, side))"
    using levels_okD [OF ok in_m] fresh [OF in_m] by (auto simp: update_conv')
qed

lemma levels_ok_lookup_delete:
  assumes ok: "levels_ok idx side cmp m"
    and fresh: "\<And>q l. (q, l) \<in> set m \<Longrightarrow> order_id \<notin> fst ` set (orders l)"
  shows "levels_ok (AList.delete order_id idx) side cmp m"
proof (rule levels_okI)
  show "sorted_wrt cmp (map fst m)" using levels_ok_sorted [OF ok] .
next
  fix q l
  assume in_m: "(q, l) \<in> set m"
  show "lvl_ok l \<and> (price l = q \<or> price l = kUndefPrice) \<and>
           (\<forall>oid \<in> fst ` set (orders l). map_of (AList.delete order_id idx) oid = Some (q, side))"
    using levels_okD [OF ok in_m] fresh [OF in_m] by (auto simp: delete_conv')
qed

lemma touch_fresh:
  assumes fresh: "\<And>q l. (q, l) \<in> set m \<Longrightarrow> order_id \<notin> fst ` set (orders l)"
    and in_t: "(q, l) \<in> set (AList.map_entry p (set_level_price p) (map_subscript cmp p m))"
  shows "order_id \<notin> fst ` set (orders l)"
proof -
  from in_t consider (old) "(q, l) \<in> set (map_subscript cmp p m)"
    | (new) v where "(p, v) \<in> set (map_subscript cmp p m)" "l = set_level_price p v"
    using set_map_entry by fastforce
  then show ?thesis
  proof cases
    case old
    then have "(q, l) \<in> set m \<or> l = PriceLevel_default" using set_map_subscript by blast
    then show ?thesis using fresh by (auto simp: PriceLevel_default_def)
  next
    case new
    then have "(p, v) \<in> set m \<or> v = PriceLevel_default" using set_map_subscript by blast
    then show ?thesis
      using fresh new(2) by (auto simp: PriceLevel_default_def orders_set_level_price)
  qed
qed

subsection \<open>The invariant of the whole book\<close>

lemma book_inv_flags:
  "book_inv (MarkChanged b) = book_inv b"
  "book_inv (ResetChanges b) = book_inv b"
  "book_inv (b\<lparr>bid_levels_cache := c\<rparr>) = book_inv b"
  "book_inv (b\<lparr>ask_levels_cache := c\<rparr>) = book_inv b"
  by (simp_all add: book_inv_def MarkChanged_def ResetChanges_def)

lemma book_invI:
  "levels_ok (order_lookup b) BID_SIDE greater_Price (bids b) \<Longrightarrow>
   levels_ok (order_lookup b) ASK_SIDE less_Price (asks b) \<Longrightarrow> book_inv b"
  by (simp add: book_inv_def)

lemma book_inv_bids: "book_inv b \<Longrightarrow> levels_ok (order_lookup b) BID_SIDE greater_Price (bids b)"
  by (simp add: book_inv_def)

lemma book_inv_asks: "book_inv b \<Longrightarrow> levels_ok (order_lookup b) ASK_SIDE less_Price (asks b)"
  by (simp add: book_inv_def)

lemma no_level_hasI:
  "(\<And>q l. (q, l) \<in> set (bids b) \<Longrightarrow> order_id \<notin> fst ` set (orders l)) \<Longrightarrow>
   (\<And>q l. (q, l) \<in> set (asks b) \<Longrightarrow> order_id \<notin> fst ` set (orders l)) \<Longrightarrow>
   no_level_has order_id b"
  unfolding no_level_has_def all_levels_def
proof
  fix l
  assume b: "\<And>q l. (q, l) \<in> set (bids b) \<Longrightarrow> order_id \<notin> fst ` set (orders l)"
    and a: "\<And>q l. (q, l) \<in> set (asks b) \<Longrightarrow> order_id \<notin> fst ` set (orders l)"
    and m: "l \<in> set (map snd (bids b) @ map snd (asks b))"
  from m have "\<exists>q. (q, l) \<in> set (bids b) \<or> (q, l) \<in> set (asks b)" by auto
  then show "order_id \<notin> fst ` set (orders l)" using a b by blast
qed

lemma no_level_has_bids:
  "no_level_has order_id b \<Longrightarrow> (q, l) \<in> set (bids b) \<Longrightarrow> order_id \<notin> fst ` set (orders l)"
  unfolding no_level_has_def all_levels_def by force

lemma no_level_has_asks:
  "no_level_has order_id b \<Longrightarrow> (q, l) \<in> set (asks b) \<Longrightarrow> order_id \<notin> fst ` set (orders l)"
  unfolding no_level_has_def all_levels_def by force

lemma sides_differ: "BID_SIDE \<noteq> ASK_SIDE"
  by (simp add: const_defs)

lemma GetOrCreateLevel_cases:
  assumes "GetOrCreateLevel s p b = Inr b1"
  obtains (bid) "s = BID_SIDE"
      "b1 = b\<lparr>bids := AList.map_entry p (set_level_price p) (map_subscript greater_Price p (bids b))\<rparr>"
    | (ask) "s = ASK_SIDE" "s \<noteq> BID_SIDE"
      "b1 = b\<lparr>asks := AList.map_entry p (set_level_price p) (map_subscript less_Price p (asks b))\<rparr>"
  using assms by (auto simp: GetOrCreateLevel_def split: if_splits)

lemma GetOrCreateLevel_inv:
  assumes g: "GetOrCreateLevel s p b = Inr b1" and inv: "book_inv b"
  shows "book_inv b1"
  using g
proof (cases rule: GetOrCreateLevel_cases)
  case bid
  show ?thesis
    using levels_ok_touch [OF strict_order_greater book_inv_bids [OF inv], where p = p] book_inv_asks [OF inv]
    by (intro book_invI) (simp_all add: bid(2))
next
  case ask
  show ?thesis
    using levels_ok_touch [OF strict_order_less book_inv_asks [OF inv], where p = p] book_inv_bids [OF inv]
    by (intro book_invI) (simp_all add: ask(3))
qed

lemma GetOrCreateLevel_frame:
  assumes "GetOrCreateLevel s p b = Inr b1"
  shows "order_lookup b1 = order_lookup b" and "has_changes b1 = has_changes b"
    and "s = BID_SIDE \<or> s = ASK_SIDE"
  using assms by (auto simp: GetOrCreateLevel_def split: if_splits)

lemma GetOrCreateLevel_fresh:
  assumes g: "GetOrCreateLevel s p b = Inr b1" and f: "no_level_has order_id b"
  shows "no_level_has order_id b1"
  using g
proof (cases rule: GetOrCreateLevel_cases)
  case bid
  show ?thesis
  proof (rule no_level_hasI)
    fix q l assume "(q, l) \<in> set (bids b1)"
    then show "order_id \<notin> fst ` set (orders l)"
      using touch_fresh [of "bids b" order_id q l p greater_Price] no_level_has_bids [OF f]
      by (simp add: bid(2))
  next
    fix q l assume "(q, l) \<in> set (asks b1)"
    then show "order_id \<notin> fst ` set (orders l)"
      using no_level_has_asks [OF f] by (simp add: bid(2))
  qed
next
  case ask
  show ?thesis
  proof (rule no_level_hasI)
    fix q l assume "(q, l) \<in> set (asks b1)"
    then show "order_id \<notin> fst ` set (orders l)"
      using touch_fresh [of "asks b" order_id q l p less_Price] no_level_has_asks [OF f]
      by (simp add: ask(3))
  next
    fix q l assume "(q, l) \<in> set (bids b1)"
    then show "order_id \<notin> fst ` set (orders l)"
      using no_level_has_bids [OF f] by (simp add: ask(3))
  qed
qed


lemma at_level_sides:
  "at_level BID_SIDE p f b = b\<lparr>bids := AList.map_entry p f (bids b)\<rparr>"
  "at_level ASK_SIDE p f b = b\<lparr>asks := AList.map_entry p f (asks b)\<rparr>"
  "s \<noteq> BID_SIDE \<Longrightarrow> s \<noteq> ASK_SIDE \<Longrightarrow> at_level s p f b = b"
  by (simp_all add: at_level_def const_defs)

lemma RemoveEmptyLevel_sides:
  "RemoveEmptyLevel BID_SIDE p b = b\<lparr>bids := erase_if_empty p (bids b)\<rparr>"
  "RemoveEmptyLevel ASK_SIDE p b = b\<lparr>asks := erase_if_empty p (asks b)\<rparr>"
  "s \<noteq> BID_SIDE \<Longrightarrow> s \<noteq> ASK_SIDE \<Longrightarrow> RemoveEmptyLevel s p b = b"
  by (simp_all add: RemoveEmptyLevel_def const_defs)

lemma side_cases:
  obtains (bid) "s = BID_SIDE" | (ask) "s = ASK_SIDE" | (other) "s \<noteq> BID_SIDE" "s \<noteq> ASK_SIDE"
  by blast

lemma remove_inv:
  assumes inv: "book_inv b"
  shows "book_inv (RemoveEmptyLevel s p (at_level s p (PriceLevel_RemoveOrder order_id) b))"
proof (cases s rule: side_cases)
  case bid
  show ?thesis
    using levels_ok_remove [OF strict_order_greater book_inv_bids [OF inv], where p = p and order_id = order_id]
      book_inv_asks [OF inv]
    by (intro book_invI) (simp_all add: bid at_level_sides RemoveEmptyLevel_sides)
next
  case ask
  show ?thesis
    using levels_ok_remove [OF strict_order_less book_inv_asks [OF inv], where p = p and order_id = order_id]
      book_inv_bids [OF inv]
    by (intro book_invI) (simp_all add: ask at_level_sides RemoveEmptyLevel_sides)
next
  case other
  then show ?thesis using inv by (simp add: at_level_sides RemoveEmptyLevel_sides)
qed

lemma remove_gone:
  assumes inv: "book_inv b" and at: "map_of (order_lookup b) order_id = Some (p, s)"
  shows "no_level_has order_id
           (RemoveEmptyLevel s p (at_level s p (PriceLevel_RemoveOrder order_id) b))"
proof -
  note okb = book_inv_bids [OF inv] and oka = book_inv_asks [OF inv]
  have nb: "order_id \<notin> fst ` set (orders l)" if "s \<noteq> BID_SIDE" "(q, l) \<in> set (bids b)" for q l
    using levels_elsewhere_gone [OF okb _ that(2), where order_id = order_id] at that(1) by simp
  have na: "order_id \<notin> fst ` set (orders l)" if "s \<noteq> ASK_SIDE" "(q, l) \<in> set (asks b)" for q l
    using levels_elsewhere_gone [OF oka _ that(2), where order_id = order_id] at that(1) by simp
  show ?thesis
  proof (cases s rule: side_cases)
    case bid
    have at': "map_of (order_lookup b) order_id = Some (p, BID_SIDE)" using at bid by simp
    show ?thesis
    proof (rule no_level_hasI)
      fix q l
      assume "(q, l) \<in> set (bids (RemoveEmptyLevel s p
                (at_level s p (PriceLevel_RemoveOrder order_id) b)))"
      then show "order_id \<notin> fst ` set (orders l)"
        using levels_remove_gone [OF strict_order_greater okb at', where q = q and l = l]
        by (simp add: bid at_level_sides RemoveEmptyLevel_sides)
    next
      fix q l
      assume "(q, l) \<in> set (asks (RemoveEmptyLevel s p
                (at_level s p (PriceLevel_RemoveOrder order_id) b)))"
      then show "order_id \<notin> fst ` set (orders l)"
        using na [of q l] sides_differ by (simp add: bid at_level_sides RemoveEmptyLevel_sides)
    qed
  next
    case ask
    have at': "map_of (order_lookup b) order_id = Some (p, ASK_SIDE)" using at ask by simp
    show ?thesis
    proof (rule no_level_hasI)
      fix q l
      assume "(q, l) \<in> set (asks (RemoveEmptyLevel s p
                (at_level s p (PriceLevel_RemoveOrder order_id) b)))"
      then show "order_id \<notin> fst ` set (orders l)"
        using levels_remove_gone [OF strict_order_less oka at', where q = q and l = l]
        by (simp add: ask at_level_sides RemoveEmptyLevel_sides)
    next
      fix q l
      assume "(q, l) \<in> set (bids (RemoveEmptyLevel s p
                (at_level s p (PriceLevel_RemoveOrder order_id) b)))"
      then show "order_id \<notin> fst ` set (orders l)"
        using nb [of q l] sides_differ by (simp add: ask at_level_sides RemoveEmptyLevel_sides)
    qed
  next
    case other
    show ?thesis
    proof (rule no_level_hasI)
      fix q l
      assume "(q, l) \<in> set (bids (RemoveEmptyLevel s p
                (at_level s p (PriceLevel_RemoveOrder order_id) b)))"
      then show "order_id \<notin> fst ` set (orders l)"
        using nb [of q l] other by (simp add: at_level_sides RemoveEmptyLevel_sides)
    next
      fix q l
      assume "(q, l) \<in> set (asks (RemoveEmptyLevel s p
                (at_level s p (PriceLevel_RemoveOrder order_id) b)))"
      then show "order_id \<notin> fst ` set (orders l)"
        using na [of q l] other by (simp add: at_level_sides RemoveEmptyLevel_sides)
    qed
  qed
qed

lemma lookup_delete_inv:
  assumes inv: "book_inv b" and f: "no_level_has order_id b"
  shows "book_inv (b\<lparr>order_lookup := AList.delete order_id (order_lookup b)\<rparr>)"
  using levels_ok_lookup_delete [OF book_inv_bids [OF inv] no_level_has_bids [OF f]]
    levels_ok_lookup_delete [OF book_inv_asks [OF inv] no_level_has_asks [OF f]]
  by (intro book_invI) simp_all

lemma add_inv:
  assumes inv: "book_inv b" and f: "no_level_has order_id b"
    and s: "s = BID_SIDE \<or> s = ASK_SIDE"
  shows "book_inv ((at_level s p (PriceLevel_AddOrder order_id sz) b)
           \<lparr>order_lookup := AList.update order_id (p, s) (order_lookup b)\<rparr>)"
proof (cases s rule: side_cases)
  case bid
  show ?thesis
    using levels_ok_add [OF book_inv_bids [OF inv] no_level_has_bids [OF f], where p = p and sz = sz]
      levels_ok_lookup_update [OF book_inv_asks [OF inv] no_level_has_asks [OF f],
        where loc = "(p, BID_SIDE)"]
    by (intro book_invI) (simp_all add: bid at_level_sides)
next
  case ask
  show ?thesis
    using levels_ok_add [OF book_inv_asks [OF inv] no_level_has_asks [OF f], where p = p and sz = sz]
      levels_ok_lookup_update [OF book_inv_bids [OF inv] no_level_has_bids [OF f],
        where loc = "(p, ASK_SIDE)"]
    by (intro book_invI) (simp_all add: ask at_level_sides)
next
  case other
  then show ?thesis using s by simp
qed

lemma modify_inv:
  assumes inv: "book_inv b"
  shows "book_inv (at_level s p (PriceLevel_ModifyOrder order_id sz) b)"
proof (cases s rule: side_cases)
  case bid
  show ?thesis
    using levels_ok_modify [OF book_inv_bids [OF inv], where p = p and order_id = order_id and sz = sz] book_inv_asks [OF inv]
    by (intro book_invI) (simp_all add: bid at_level_sides)
next
  case ask
  show ?thesis
    using levels_ok_modify [OF book_inv_asks [OF inv], where p = p and order_id = order_id and sz = sz] book_inv_bids [OF inv]
    by (intro book_invI) (simp_all add: ask at_level_sides)
next
  case other
  then show ?thesis using inv by (simp add: at_level_sides)
qed

lemma unknown_order_fresh:
  assumes inv: "book_inv b" and n: "map_of (order_lookup b) order_id = None"
  shows "no_level_has order_id b"
proof (rule no_level_hasI)
  fix q l assume "(q, l) \<in> set (bids b)"
  then show "order_id \<notin> fst ` set (orders l)"
    using levels_elsewhere_gone [OF book_inv_bids [OF inv]] n by blast
next
  fix q l assume "(q, l) \<in> set (asks b)"
  then show "order_id \<notin> fst ` set (orders l)"
    using levels_elsewhere_gone [OF book_inv_asks [OF inv]] n by blast
qed

lemma frame_lookup:
  "order_lookup (at_level s p f b) = order_lookup b"
  "order_lookup (RemoveEmptyLevel s p b) = order_lookup b"
  "order_lookup (MarkChanged b) = order_lookup b"
  by (simp_all add: at_level_def RemoveEmptyLevel_def MarkChanged_def)

lemma RemoveEmptyLevel_lookup_commute:
  "RemoveEmptyLevel s p (b\<lparr>order_lookup := x\<rparr>) = (RemoveEmptyLevel s p b)\<lparr>order_lookup := x\<rparr>"
  by (simp add: RemoveEmptyLevel_def)


subsection \<open>Every event keeps the invariant\<close>

lemma AddOrder_inv:
  assumes inv: "book_inv b"
  shows "book_inv (state_of (AddOrder r b))"
proof (cases "map_of (order_lookup b) (mbo_order_id r)")
  case (Some loc)
  then show ?thesis using inv by (simp add: AddOrder_def)
next
  case None
  show ?thesis
  proof (cases "GetOrCreateLevel (mbo_side r) (mbo_price r) b")
    case (Inl e)
    then show ?thesis using inv None by (simp add: AddOrder_def)
  next
    case (Inr b1)
    have i1: "book_inv b1" using GetOrCreateLevel_inv [OF Inr inv] .
    have f1: "no_level_has (mbo_order_id r) b1"
      using GetOrCreateLevel_fresh [OF Inr unknown_order_fresh [OF inv None]] .
    note fr = GetOrCreateLevel_frame [OF Inr]
    have "book_inv ((at_level (mbo_side r) (mbo_price r)
              (PriceLevel_AddOrder (mbo_order_id r) (mbo_size r)) b1)
           \<lparr>order_lookup := AList.update (mbo_order_id r) (mbo_price r, mbo_side r)
              (order_lookup b1)\<rparr>)"
      using add_inv [OF i1 f1 fr(3)] .
    then show ?thesis
      using None Inr by (simp add: AddOrder_def Let_def frame_lookup book_inv_flags)
  qed
qed

lemma CancelOrder_inv:
  assumes inv: "book_inv b"
  shows "book_inv (state_of (CancelOrder r b))"
proof (cases "map_of (order_lookup b) (mbo_order_id r)")
  case None
  then show ?thesis using inv by (simp add: CancelOrder_def)
next
  case (Some loc)
  obtain p s where loc: "loc = (p, s)" by (cases loc)
  show ?thesis
  proof (cases "GetOrCreateLevel s p b")
    case (Inl e)
    then show ?thesis using inv Some loc by (simp add: CancelOrder_def)
  next
    case (Inr b1)
    let ?b' = "RemoveEmptyLevel s p (at_level s p (PriceLevel_RemoveOrder (mbo_order_id r)) b1)"
    have i1: "book_inv b1" using GetOrCreateLevel_inv [OF Inr inv] .
    note fr = GetOrCreateLevel_frame [OF Inr]
    have at: "map_of (order_lookup b1) (mbo_order_id r) = Some (p, s)"
      using Some loc fr(1) by simp
    have i': "book_inv ?b'" using remove_inv [OF i1] .
    have f': "no_level_has (mbo_order_id r) ?b'" using remove_gone [OF i1 at] .
    have l': "order_lookup ?b' = order_lookup b1" by (simp add: frame_lookup)
    have "book_inv (?b'\<lparr>order_lookup := AList.delete (mbo_order_id r) (order_lookup b1)\<rparr>)"
      using lookup_delete_inv [OF i' f'] by (simp only: l')
    then show ?thesis
      using Some loc Inr
      by (simp add: CancelOrder_def Let_def frame_lookup book_inv_flags
          RemoveEmptyLevel_lookup_commute)
  qed
qed

lemma ModifyOrder_inv:
  assumes inv: "book_inv b"
  shows "book_inv (state_of (ModifyOrder r b))"
proof (cases "map_of (order_lookup b) (mbo_order_id r)")
  case None
  then show ?thesis using AddOrder_inv [OF inv] by (simp add: ModifyOrder_def)
next
  case (Some loc)
  obtain old_price old_side where loc: "loc = (old_price, old_side)" by (cases loc)
  show ?thesis
  proof (cases "old_price \<noteq> mbo_price r \<or> old_side \<noteq> mbo_side r")
    case move: True
    show ?thesis
    proof (cases "GetOrCreateLevel old_side old_price b")
      case (Inl e)
      then show ?thesis using inv Some loc move by (simp add: ModifyOrder_def)
    next
      case (Inr b1)
      let ?b3 = "RemoveEmptyLevel old_side old_price
                   (at_level old_side old_price (PriceLevel_RemoveOrder (mbo_order_id r)) b1)"
      have i1: "book_inv b1" using GetOrCreateLevel_inv [OF Inr inv] .
      note fr = GetOrCreateLevel_frame [OF Inr]
      have at: "map_of (order_lookup b1) (mbo_order_id r) = Some (old_price, old_side)"
        using Some loc fr(1) by simp
      have i3: "book_inv ?b3" using remove_inv [OF i1] .
      have f3: "no_level_has (mbo_order_id r) ?b3" using remove_gone [OF i1 at] .
      show ?thesis
      proof (cases "GetOrCreateLevel (mbo_side r) (mbo_price r) ?b3")
        case thrown: (Inl e)
        have "ModifyOrder r b = Thrown e ?b3"
          using Some loc move Inr thrown by (simp add: ModifyOrder_def Let_def)
        then show ?thesis using i3 by simp
      next
        case created: (Inr b4)
        have i4: "book_inv b4" using GetOrCreateLevel_inv [OF created i3] .
        have f4: "no_level_has (mbo_order_id r) b4"
          using GetOrCreateLevel_fresh [OF created f3] .
        note fr4 = GetOrCreateLevel_frame [OF created]
        let ?b6 = "(at_level (mbo_side r) (mbo_price r)
              (PriceLevel_AddOrder (mbo_order_id r) (mbo_size r)) b4)
           \<lparr>order_lookup := AList.update (mbo_order_id r) (mbo_price r, mbo_side r)
              (order_lookup b4)\<rparr>"
        have i6: "book_inv ?b6" using add_inv [OF i4 f4 fr4(3)] .
        have "ModifyOrder r b = Done (MarkChanged ?b6)"
          using Some loc move Inr created by (simp add: ModifyOrder_def Let_def frame_lookup)
        then show ?thesis using i6 by (simp add: book_inv_flags)
      qed
    qed
  next
    case same: False
    show ?thesis
    proof (cases "GetOrCreateLevel (mbo_side r) (mbo_price r) b")
      case (Inl e)
      then show ?thesis using inv Some loc same by (simp add: ModifyOrder_def)
    next
      case (Inr b1)
      have i1: "book_inv b1" using GetOrCreateLevel_inv [OF Inr inv] .
      have "ModifyOrder r b = Done (MarkChanged (at_level (mbo_side r) (mbo_price r)
              (PriceLevel_ModifyOrder (mbo_order_id r) (mbo_size r)) b1))"
        using Some loc same Inr by (simp add: ModifyOrder_def)
      then show ?thesis using modify_inv [OF i1] by (simp add: book_inv_flags)
    qed
  qed
qed

lemma book_inv_new: "book_inv OrderBook_new"
  by (simp add: book_inv_def levels_ok_def OrderBook_new_def)

lemma Clear_inv: "book_inv (Clear b)"
  by (simp add: book_inv_def levels_ok_def Clear_def MarkChanged_def)

lemma Apply_inv: "book_inv b \<Longrightarrow> book_inv (state_of (Apply r b))"
  by (simp add: Apply_def AddOrder_inv CancelOrder_inv ModifyOrder_inv Clear_inv)

lemma apply_trace_inv: "book_inv b \<Longrightarrow> book_inv (apply_trace rs b)"
  by (induction rs arbitrary: b) (simp_all add: Apply_inv)

section \<open>Level sums\<close>

lemma lvl_ok_level_sum_mod: "lvl_ok l \<Longrightarrow> level_sum_mod l"
  by (simp add: lvl_ok_def level_sum_mod_def unat_of_nat)

lemma level_sum_mod_exact:
  "level_sum_mod l \<Longrightarrow> sum_sizes (orders l) < 2 ^ 32 \<Longrightarrow> length (orders l) < 2 ^ 32 \<Longrightarrow>
     level_sum_exact l"
  by (simp add: level_sum_mod_def level_sum_exact_def)

lemma book_inv_all_levels: "book_inv b \<Longrightarrow> l \<in> set (all_levels b) \<Longrightarrow> lvl_ok l"
  unfolding book_inv_def levels_ok_def all_levels_def by auto


text \<open>
  C6 (counterexample). Two orders of size \<open>2 ^ 31\<close> are added at one bid price. The
  sizes stored in the level sum to \<open>2 ^ 32\<close>, while \<open>total_size\<close>, a 32-bit value
  in the source, has wrapped to 0.
\<close>

theorem level_sum_wraps_counterexample:
  "all_levels (apply_trace [event ACTION_ADD BID_SIDE 1 10000000000 2147483648,
                            event ACTION_ADD BID_SIDE 2 10000000000 2147483648] OrderBook_new)
   = [\<lparr>price = 10000000000, total_size = 0, order_count = 2,
       orders = [(1, 2147483648), (2, 2147483648)]\<rparr>] \<and>
   sum_sizes [(1, 2147483648), (2, 2147483648)] = 4294967296 \<and>
   \<not> level_sum_exact \<lparr>price = 10000000000, total_size = 0, order_count = 2,
       orders = [(1, 2147483648), (2, 2147483648)]\<rparr>"
  by (simp add: const_defs valid_defs level_defs book_defs all_levels_def sum_sizes_def
      level_sum_exact_def)


text \<open>
  C6 (amended). In every state reached from the empty book by a trace of events, each
  throw caught, every price level of either side has one entry per stored order,
  \<open>total_size\<close> equal to the sum of the stored sizes modulo \<open>2 ^ 32\<close> and
  \<open>order_count\<close> equal to the number of entries modulo \<open>2 ^ 32\<close>; the two are the
  exact sum and the exact number whenever those are below \<open>2 ^ 32\<close>.
\<close>

theorem level_sums_modulo:
  "list_all (\<lambda>l. level_sum_mod l \<and>
               (sum_sizes (orders l) < 2 ^ 32 \<and> length (orders l) < 2 ^ 32 \<longrightarrow>
                  level_sum_exact l))
     (all_levels (apply_trace rs OrderBook_new))"
proof -
  have "book_inv (apply_trace rs OrderBook_new)"
    using book_inv_new by (rule apply_trace_inv)
  then show ?thesis
    unfolding list_all_iff
    using book_inv_all_levels lvl_ok_level_sum_mod level_sum_mod_exact by blast
qed

theorem level_sums_modulo_witness:
  "all_levels (apply_trace [event ACTION_ADD BID_SIDE 1 10000000000 3,
                            event ACTION_ADD BID_SIDE 2 10000000000 4,
                            event ACTION_ADD ASK_SIDE 3 11000000000 4294967295,
                            event ACTION_ADD ASK_SIDE 4 11000000000 2] OrderBook_new)
   = [\<lparr>price = 10000000000, total_size = 7, order_count = 2, orders = [(1, 3), (2, 4)]\<rparr>,
      \<lparr>price = 11000000000, total_size = 1, order_count = 2,
       orders = [(3, 4294967295), (4, 2)]\<rparr>] \<and>
   level_sum_mod
     \<lparr>price = 10000000000, total_size = 7, order_count = 2, orders = [(1, 3), (2, 4)]\<rparr> \<and>
   sum_sizes [(1, 3), (2, 4)] < 2 ^ 32 \<and> length [(1 :: OrderID, 3 :: Size), (2, 4)] < 2 ^ 32 \<and>
   level_sum_exact
     \<lparr>price = 10000000000, total_size = 7, order_count = 2, orders = [(1, 3), (2, 4)]\<rparr> \<and>
   level_sum_mod
     \<lparr>price = 11000000000, total_size = 1, order_count = 2,
       orders = [(3, 4294967295), (4, 2)]\<rparr>"
proof -
  let ?rs = "[event ACTION_ADD BID_SIDE 1 10000000000 3,
              event ACTION_ADD BID_SIDE 2 10000000000 4,
              event ACTION_ADD ASK_SIDE 3 11000000000 4294967295,
              event ACTION_ADD ASK_SIDE 4 11000000000 2]"
  have a: "all_levels (apply_trace ?rs OrderBook_new)
   = [\<lparr>price = 10000000000, total_size = 7, order_count = 2, orders = [(1, 3), (2, 4)]\<rparr>,
      \<lparr>price = 11000000000, total_size = 1, order_count = 2,
       orders = [(3, 4294967295), (4, 2)]\<rparr>]"
    by (simp add: const_defs valid_defs level_defs book_defs all_levels_def)
  have s: "sum_sizes [(1, 3), (2, 4)] < 2 ^ 32" by (simp add: sum_sizes_def)
  have n: "length [(1 :: OrderID, 3 :: Size), (2, 4)] < 2 ^ 32" by simp
  note t = level_sums_modulo [of ?rs]
  have m: "level_sum_mod
     \<lparr>price = 10000000000, total_size = 7, order_count = 2, orders = [(1, 3), (2, 4)]\<rparr> \<and>
    (sum_sizes [(1, 3), (2, 4)] < 2 ^ 32 \<and> length [(1 :: OrderID, 3 :: Size), (2, 4)] < 2 ^ 32
       \<longrightarrow> level_sum_exact
     \<lparr>price = 10000000000, total_size = 7, order_count = 2, orders = [(1, 3), (2, 4)]\<rparr>) \<and>
    level_sum_mod
     \<lparr>price = 11000000000, total_size = 1, order_count = 2,
       orders = [(3, 4294967295), (4, 2)]\<rparr>"
    using t unfolding a by simp
  show ?thesis
    using a m s n by blast
qed


section \<open>Top of book\<close>

lemma top_levels_loop_eq:
  "top_levels_loop k m cache =
     (if k \<le> length cache then cache
      else cache @ take (k - length cache)
             (map CompactPriceLevel_of (filter (\<lambda>l. \<not> PriceLevel_IsEmpty l) (map snd m))))"
proof (induction m arbitrary: cache)
  case Nil
  show ?case by simp
next
  case (Cons e m)
  obtain p l where e: "e = (p, l)" by (cases e)
  show ?case
  proof (cases "k \<le> length cache")
    case True
    then show ?thesis by (simp add: e)
  next
    case False
    then obtain j where j: "k - length cache = Suc j" by (cases "k - length cache") auto
    then have j': "k - Suc (length cache) = j" by simp
    show ?thesis
      using False j by (auto simp: e Cons.IH j')
  qed
qed

lemma GetTopBids_eq:
  "GetTopBids k b = (first_nonempty k (bids b), b\<lparr>bid_levels_cache := first_nonempty k (bids b)\<rparr>)"
  by (simp add: GetTopBids_def top_levels_loop_eq first_nonempty_def Let_def)

lemma GetTopAsks_eq:
  "GetTopAsks k b = (first_nonempty k (asks b), b\<lparr>ask_levels_cache := first_nonempty k (asks b)\<rparr>)"
  by (simp add: GetTopAsks_def top_levels_loop_eq first_nonempty_def Let_def)

lemma first_nonempty_nonempty:
  "list_all (\<lambda>c. c_price c \<noteq> kUndefPrice \<and> c_count c \<noteq> 0) (first_nonempty k m)"
  unfolding list_all_iff first_nonempty_def
  by (auto dest!: in_set_takeD simp: CompactPriceLevel_of_def PriceLevel_IsEmpty_def)

lemma first_nonempty_prices:
  assumes "levels_ok idx side cmp m"
  shows "map c_price (first_nonempty k m) =
           take k (map fst (filter (\<lambda>e. \<not> PriceLevel_IsEmpty (snd e)) m))"
proof -
  have "map (\<lambda>l. c_price (CompactPriceLevel_of l))
          (filter (\<lambda>l. \<not> PriceLevel_IsEmpty l) (map snd m))
        = map fst (filter (\<lambda>e. \<not> PriceLevel_IsEmpty (snd e)) m)"
    using assms
  proof (induction m)
    case Nil
    show ?case by simp
  next
    case (Cons e m)
    obtain p l where e: "e = (p, l)" by (cases e)
    have tl: "levels_ok idx side cmp m"
      using Cons.prems unfolding levels_ok_def by simp
    have "price l = p \<or> price l = kUndefPrice"
      using Cons.prems unfolding levels_ok_def by (simp add: e)
    then show ?case
      using Cons.IH [OF tl] by (auto simp: e CompactPriceLevel_of_def PriceLevel_IsEmpty_def)
  qed
  then have "map c_price (map CompactPriceLevel_of
          (filter (\<lambda>l. \<not> PriceLevel_IsEmpty l) (map snd m)))
        = map fst (filter (\<lambda>e. \<not> PriceLevel_IsEmpty (snd e)) m)"
    by (simp add: comp_def)
  then have "take k (map c_price (map CompactPriceLevel_of
          (filter (\<lambda>l. \<not> PriceLevel_IsEmpty l) (map snd m))))
        = take k (map fst (filter (\<lambda>e. \<not> PriceLevel_IsEmpty (snd e)) m))"
    by (rule arg_cong)
  then show ?thesis
    unfolding first_nonempty_def by (simp only: take_map)
qed

lemma first_nonempty_sorted:
  assumes "levels_ok idx side cmp m"
  shows "sorted_wrt cmp (map c_price (first_nonempty k m))"
proof -
  have "sorted_wrt cmp (map fst m)" using assms by (rule levels_ok_sorted)
  then have "sorted_wrt cmp (map fst (filter (\<lambda>e. \<not> PriceLevel_IsEmpty (snd e)) m))"
    by (simp add: sorted_wrt_map sorted_wrt_filter)
  then show ?thesis
    by (simp add: first_nonempty_prices [OF assms] sorted_wrt_take)
qed


text \<open>
  C9. After an Add of order 1, a Modify of it that names the neutral side (which throws
  after the order has left its level) and a Modify of it at its recorded price and side,
  the bid book stores a level that is empty: iterating the bid side visits it, and
  \<open>GetTopBids\<close> returns nothing.
\<close>

theorem stale_empty_level_visited:
  "bids (apply_trace [event ACTION_ADD BID_SIDE 1 10000000000 2,
                      event ACTION_MODIFY NEUTRAL_SIDE 1 10000000000 2,
                      event ACTION_MODIFY BID_SIDE 1 10000000000 2] OrderBook_new)
   = [(10000000000, \<lparr>price = 10000000000, total_size = 0, order_count = 0, orders = []\<rparr>)] \<and>
   PriceLevel_IsEmpty \<lparr>price = 10000000000, total_size = 0, order_count = 0, orders = []\<rparr> \<and>
   fst (GetTopBids 10
     (apply_trace [event ACTION_ADD BID_SIDE 1 10000000000 2,
                   event ACTION_MODIFY NEUTRAL_SIDE 1 10000000000 2,
                   event ACTION_MODIFY BID_SIDE 1 10000000000 2] OrderBook_new)) = []"
  by code_simp


text \<open>
  What does hold of the top of the book in every state reached from the empty book by a
  trace of events, each throw caught: the keys of the bid side are strictly decreasing in
  iteration order and those of the ask side strictly increasing; \<open>GetTopBids\<close> and
  \<open>GetTopAsks\<close> return the first \<open>k\<close> levels that are not empty, in that order;
  every level returned has a price other than \<open>kUndefPrice\<close> and a non-zero count, and
  the prices returned are strictly decreasing for bids and strictly increasing for asks.
  The calls write the cache they return and nothing else of the book.
\<close>

theorem top_of_book_ordered:
  "sorted_wrt greater_Price (map fst (bids (apply_trace rs OrderBook_new))) \<and>
   sorted_wrt less_Price (map fst (asks (apply_trace rs OrderBook_new))) \<and>
   fst (GetTopBids k (apply_trace rs OrderBook_new))
     = first_nonempty k (bids (apply_trace rs OrderBook_new)) \<and>
   fst (GetTopAsks k (apply_trace rs OrderBook_new))
     = first_nonempty k (asks (apply_trace rs OrderBook_new)) \<and>
   list_all (\<lambda>c. c_price c \<noteq> kUndefPrice \<and> c_count c \<noteq> 0)
     (fst (GetTopBids k (apply_trace rs OrderBook_new))) \<and>
   list_all (\<lambda>c. c_price c \<noteq> kUndefPrice \<and> c_count c \<noteq> 0)
     (fst (GetTopAsks k (apply_trace rs OrderBook_new))) \<and>
   sorted_wrt greater_Price (map c_price (fst (GetTopBids k (apply_trace rs OrderBook_new)))) \<and>
   sorted_wrt less_Price (map c_price (fst (GetTopAsks k (apply_trace rs OrderBook_new)))) \<and>
   snd (GetTopBids k (apply_trace rs OrderBook_new))
     = (apply_trace rs OrderBook_new)
         \<lparr>bid_levels_cache := fst (GetTopBids k (apply_trace rs OrderBook_new))\<rparr> \<and>
   snd (GetTopAsks k (apply_trace rs OrderBook_new))
     = (apply_trace rs OrderBook_new)
         \<lparr>ask_levels_cache := fst (GetTopAsks k (apply_trace rs OrderBook_new))\<rparr>"
proof -
  let ?b = "apply_trace rs OrderBook_new"
  have inv: "book_inv ?b" using book_inv_new by (rule apply_trace_inv)
  note okb = book_inv_bids [OF inv] and oka = book_inv_asks [OF inv]
  show ?thesis
    using levels_ok_sorted [OF okb] levels_ok_sorted [OF oka]
      first_nonempty_sorted [OF okb, of k] first_nonempty_sorted [OF oka, of k]
      first_nonempty_nonempty [of k "bids ?b"] first_nonempty_nonempty [of k "asks ?b"]
    by (simp add: GetTopBids_eq GetTopAsks_eq)
qed



theorem top_of_book_ordered_witness:
  "map fst (bids (apply_trace [event ACTION_ADD BID_SIDE 1 10000000000 2,
                      event ACTION_MODIFY NEUTRAL_SIDE 1 10000000000 2,
                      event ACTION_MODIFY BID_SIDE 1 10000000000 2,
                      event ACTION_ADD BID_SIDE 2 11000000000 4,
                      event ACTION_ADD BID_SIDE 3 9000000000 1] OrderBook_new))
   = [11000000000, 10000000000, 9000000000] \<and>
   sorted_wrt greater_Price [11000000000, 10000000000, 9000000000] \<and>
   fst (GetTopBids 10 (apply_trace [event ACTION_ADD BID_SIDE 1 10000000000 2,
                      event ACTION_MODIFY NEUTRAL_SIDE 1 10000000000 2,
                      event ACTION_MODIFY BID_SIDE 1 10000000000 2,
                      event ACTION_ADD BID_SIDE 2 11000000000 4,
                      event ACTION_ADD BID_SIDE 3 9000000000 1] OrderBook_new))
   = [\<lparr>c_price = 11000000000, c_size = 4, c_count = 1\<rparr>,
      \<lparr>c_price = 9000000000, c_size = 1, c_count = 1\<rparr>] \<and>
   first_nonempty 10 (bids (apply_trace [event ACTION_ADD BID_SIDE 1 10000000000 2,
                      event ACTION_MODIFY NEUTRAL_SIDE 1 10000000000 2,
                      event ACTION_MODIFY BID_SIDE 1 10000000000 2,
                      event ACTION_ADD BID_SIDE 2 11000000000 4,
                      event ACTION_ADD BID_SIDE 3 9000000000 1] OrderBook_new))
   = [\<lparr>c_price = 11000000000, c_size = 4, c_count = 1\<rparr>,
      \<lparr>c_price = 9000000000, c_size = 1, c_count = 1\<rparr>]"
proof -
  let ?rs = "[event ACTION_ADD BID_SIDE 1 10000000000 2,
              event ACTION_MODIFY NEUTRAL_SIDE 1 10000000000 2,
              event ACTION_MODIFY BID_SIDE 1 10000000000 2,
              event ACTION_ADD BID_SIDE 2 11000000000 4,
              event ACTION_ADD BID_SIDE 3 9000000000 1]"
  have k: "map fst (bids (apply_trace ?rs OrderBook_new))
      = [11000000000, 10000000000, 9000000000]"
    by code_simp
  have g: "fst (GetTopBids 10 (apply_trace ?rs OrderBook_new))
      = [\<lparr>c_price = 11000000000, c_size = 4, c_count = 1\<rparr>,
         \<lparr>c_price = 9000000000, c_size = 1, c_count = 1\<rparr>]"
    by code_simp
  note t = top_of_book_ordered [of ?rs 10]
  have s: "sorted_wrt greater_Price [11000000000, 10000000000, 9000000000]"
    using t unfolding k by blast
  have f: "first_nonempty 10 (bids (apply_trace ?rs OrderBook_new))
      = [\<lparr>c_price = 11000000000, c_size = 4, c_count = 1\<rparr>,
         \<lparr>c_price = 9000000000, c_size = 1, c_count = 1\<rparr>]"
    using t g by simp
  show ?thesis using k s g f by blast
qed

text \<open>
  What of the coherence of the two indices does hold in every reachable state: each order
  stored in a level is in the order lookup with the price and side of that level, the
  second and third checks of \<open>ValidateConsistency\<close>.
\<close>

lemma stored_orders_tracked:
  "list_all (level_tracked (apply_trace rs OrderBook_new) BID_SIDE)
     (bids (apply_trace rs OrderBook_new)) \<and>
   list_all (level_tracked (apply_trace rs OrderBook_new) ASK_SIDE)
     (asks (apply_trace rs OrderBook_new))"
proof -
  let ?b = "apply_trace rs OrderBook_new"
  have inv: "book_inv ?b" using book_inv_new by (rule apply_trace_inv)
  have "level_tracked ?b side e" if "levels_ok (order_lookup ?b) side cmp m" "e \<in> set m"
    for side cmp m e
  proof -
    obtain p l where e: "e = (p, l)" by (cases e)
    have "map_of (order_lookup ?b) order_id = Some (p, side)" if "(order_id, sz) \<in> set (orders l)"
      for order_id sz
      using levels_okD(3) [OF \<open>levels_ok (order_lookup ?b) side cmp m\<close>, of p l order_id]
        \<open>e \<in> set m\<close> that e by force
    then show ?thesis
      unfolding level_tracked_def e list_all_iff by auto
  qed
  then show ?thesis
    using book_inv_bids [OF inv] book_inv_asks [OF inv] unfolding list_all_iff by blast
qed

section \<open>Add followed by Cancel\<close>

lemma map_subscript_present:
  assumes so: "strict_order cmp"
  shows "sorted_wrt cmp (map fst m) \<Longrightarrow> k \<in> fst ` set m \<Longrightarrow> map_subscript cmp k m = m"
proof (induction m)
  case Nil
  then show ?case by simp
next
  case (Cons e m)
  obtain k' v where e: "e = (k', v)" by (cases e)
  have asym: "\<And>a b. cmp a b \<Longrightarrow> \<not> cmp b a"
    using so unfolding strict_order_def by blast
  show ?case
  proof (cases "k = k'")
    case True
    then show ?thesis by (simp add: e)
  next
    case False
    then have in_m: "k \<in> fst ` set m" using Cons.prems(2) by (auto simp: e)
    then have "cmp k' k" using Cons.prems(1) by (auto simp: e)
    then have "\<not> cmp k k'" using asym by blast
    then show ?thesis using False Cons.IH in_m Cons.prems(1) by (simp add: e)
  qed
qed

lemma map_entry_same:
  "map_of m k = Some v \<Longrightarrow> f v = v \<Longrightarrow> AList.map_entry k f m = m"
  by (induction m) (auto split: if_splits)

lemma map_entry_absent: "k \<notin> fst ` set m \<Longrightarrow> AList.map_entry k f m = m"
  by (induction m) auto

lemma map_entry_twice:
  "AList.map_entry k f (AList.map_entry k g m) = AList.map_entry k (\<lambda>v. f (g v)) m"
  by (induction m) auto

lemma map_of_map_entry_key:
  "map_of (AList.map_entry k f m) k = map_option f (map_of m k)"
  by (induction m) auto

lemma map_of_map_subscript_new:
  "k \<notin> fst ` set m \<Longrightarrow> map_of (map_subscript cmp k m) k = Some PriceLevel_default"
  by (induction m) auto

lemma delete_map_entry_map_subscript:
  "k \<notin> fst ` set m \<Longrightarrow> AList.delete k (AList.map_entry k f (map_subscript cmp k m)) = m"
  by (induction m) (auto simp: map_entry_absent)

lemma level_add_remove:
  assumes "order_id \<notin> fst ` set (orders l)" "order_count l \<noteq> 0"
  shows "PriceLevel_RemoveOrder order_id (PriceLevel_AddOrder order_id sz l) = l"
  using assms
  by (simp add: PriceLevel_RemoveOrder_def PriceLevel_AddOrder_def update_conv' Let_def
      delete_update_same)

lemma level_add_remove_new:
  "PriceLevel_IsEmpty
     (PriceLevel_RemoveOrder order_id
        (PriceLevel_AddOrder order_id sz (set_level_price p PriceLevel_default)))"
  by (simp add: PriceLevel_RemoveOrder_def PriceLevel_AddOrder_def update_conv' Let_def
      PriceLevel_IsEmpty_def set_level_price_def PriceLevel_default_def)


lemma set_level_price_same: "price l = p \<Longrightarrow> set_level_price p l = l"
  by (simp add: set_level_price_def)

lemma touch_present:
  assumes so: "strict_order cmp" and srt: "sorted_wrt cmp (map fst m)"
    and at: "map_of m p = Some l" and pr: "price l = p"
  shows "AList.map_entry p (set_level_price p) (map_subscript cmp p m) = m"
proof -
  have "p \<in> fst ` set m" using at by (force dest: map_of_SomeD)
  then have "map_subscript cmp p m = m" using map_subscript_present [OF so srt] by blast
  then show ?thesis
    using map_entry_same [OF at, of "set_level_price p"] set_level_price_same [OF pr] by simp
qed

lemma side_round_trip:
  assumes so: "strict_order cmp" and srt: "sorted_wrt cmp (map fst m)"
    and lv: "\<And>q l. (q, l) \<in> set m \<Longrightarrow>
        \<not> PriceLevel_IsEmpty l \<and> (price l = q \<or> price l = kUndefPrice) \<and>
        order_id \<notin> fst ` set (orders l)"
  shows "erase_if_empty p
           (AList.map_entry p (PriceLevel_RemoveOrder order_id)
              (AList.map_entry p (set_level_price p)
                 (map_subscript cmp p
                    (AList.map_entry p (PriceLevel_AddOrder order_id sz)
                       (AList.map_entry p (set_level_price p) (map_subscript cmp p m))))))
         = m"
proof (cases "map_of m p")
  case (Some l)
  have in_m: "(p, l) \<in> set m" using Some by (rule map_of_SomeD)
  note f = lv [OF in_m]
  have pr: "price l = p" using f by (auto simp: PriceLevel_IsEmpty_def)
  have cnt: "order_count l \<noteq> 0" using f by (simp add: PriceLevel_IsEmpty_def)
  let ?m2 = "AList.map_entry p (PriceLevel_AddOrder order_id sz) m"
  have t1: "AList.map_entry p (set_level_price p) (map_subscript cmp p m) = m"
    using touch_present [OF so srt Some pr] .
  have srt2: "sorted_wrt cmp (map fst ?m2)" using srt by (simp add: keys_map_entry)
  have at2: "map_of ?m2 p = Some (PriceLevel_AddOrder order_id sz l)"
    using Some by (simp add: map_of_map_entry_key)
  have t2: "AList.map_entry p (set_level_price p) (map_subscript cmp p ?m2) = ?m2"
    using touch_present [OF so srt2 at2] pr by (simp add: price_AddOrder)
  have r: "AList.map_entry p (PriceLevel_RemoveOrder order_id) ?m2 = m"
    unfolding map_entry_twice
    using map_entry_same [OF Some, of "\<lambda>v. PriceLevel_RemoveOrder order_id
        (PriceLevel_AddOrder order_id sz v)"] level_add_remove [of order_id l sz] f cnt
    by simp
  have e: "erase_if_empty p m = m"
    using Some f by (simp add: erase_if_empty_def)
  show ?thesis by (simp only: t1 t2 r e)
next
  case None
  then have nk: "p \<notin> fst ` set m" by (simp add: map_of_eq_None_iff)
  let ?ms = "map_subscript cmp p m"
  let ?g = "\<lambda>v. PriceLevel_AddOrder order_id sz (set_level_price p v)"
  let ?m2 = "AList.map_entry p ?g ?ms"
  have m2: "AList.map_entry p (PriceLevel_AddOrder order_id sz)
              (AList.map_entry p (set_level_price p) ?ms) = ?m2"
    by (simp add: map_entry_twice)
  have srt2: "sorted_wrt cmp (map fst ?m2)"
    using sorted_map_subscript [OF so srt] by (simp add: keys_map_entry)
  have at2: "map_of ?m2 p = Some (?g PriceLevel_default)"
    using map_of_map_subscript_new [OF nk] by (simp add: map_of_map_entry_key)
  have pr2: "price (?g PriceLevel_default) = p"
    by (simp add: price_AddOrder set_level_price_def PriceLevel_default_def)
  have t2: "AList.map_entry p (set_level_price p) (map_subscript cmp p ?m2) = ?m2"
    using touch_present [OF so srt2 at2 pr2] .
  let ?h = "\<lambda>v. PriceLevel_RemoveOrder order_id (?g v)"
  have m3: "AList.map_entry p (PriceLevel_RemoveOrder order_id) ?m2 = AList.map_entry p ?h ?ms"
    by (simp add: map_entry_twice)
  have at3: "map_of (AList.map_entry p ?h ?ms) p = Some (?h PriceLevel_default)"
    using map_of_map_subscript_new [OF nk] by (simp add: map_of_map_entry_key)
  have e: "erase_if_empty p (AList.map_entry p ?h ?ms) = m"
    using at3 level_add_remove_new [of order_id sz p]
      delete_map_entry_map_subscript [OF nk, of ?h cmp]
    by (simp add: erase_if_empty_def)
  show ?thesis by (simp only: m2 t2 m3 e)
qed


lemma book_inv_side_levels:
  assumes inv: "book_inv b"
    and ne: "list_all (\<lambda>l. \<not> PriceLevel_IsEmpty l) (all_levels b)"
    and fresh: "map_of (order_lookup b) order_id = None"
  shows "\<And>q l. (q, l) \<in> set (bids b) \<Longrightarrow>
        \<not> PriceLevel_IsEmpty l \<and> (price l = q \<or> price l = kUndefPrice) \<and>
        order_id \<notin> fst ` set (orders l)"
    and "\<And>q l. (q, l) \<in> set (asks b) \<Longrightarrow>
        \<not> PriceLevel_IsEmpty l \<and> (price l = q \<or> price l = kUndefPrice) \<and>
        order_id \<notin> fst ` set (orders l)"
proof -
  note f = unknown_order_fresh [OF inv fresh]
  fix q l
  show "\<not> PriceLevel_IsEmpty l \<and> (price l = q \<or> price l = kUndefPrice) \<and>
        order_id \<notin> fst ` set (orders l)" if "(q, l) \<in> set (bids b)"
  proof -
    have "l \<in> set (all_levels b)" using that by (force simp: all_levels_def)
    then have "\<not> PriceLevel_IsEmpty l" using ne by (simp add: list_all_iff)
    then show ?thesis
      using levels_okD(2) [OF book_inv_bids [OF inv] that] no_level_has_bids [OF f that] by blast
  qed
  show "\<not> PriceLevel_IsEmpty l \<and> (price l = q \<or> price l = kUndefPrice) \<and>
        order_id \<notin> fst ` set (orders l)" if "(q, l) \<in> set (asks b)"
  proof -
    have "l \<in> set (all_levels b)" using that by (force simp: all_levels_def)
    then have "\<not> PriceLevel_IsEmpty l" using ne by (simp add: list_all_iff)
    then show ?thesis
      using levels_okD(2) [OF book_inv_asks [OF inv] that] no_level_has_asks [OF f that] by blast
  qed
qed

text \<open>
  From a book that keeps the invariant and stores no empty level, an Add of an unknown
  order followed by a Cancel of it gives back both side books and the order lookup. (On
  the neutral side the Add throws and the Cancel finds nothing.)
\<close>

lemma add_cancel_round_trip:
  assumes inv: "book_inv b"
    and ne: "list_all (\<lambda>l. \<not> PriceLevel_IsEmpty l) (all_levels b)"
    and fresh: "map_of (order_lookup b) (mbo_order_id r) = None"
    and r: "mbo_action r = ACTION_ADD" "IsValid r"
    and c: "mbo_action c = ACTION_CANCEL" "IsValid c" "mbo_order_id c = mbo_order_id r"
  shows "bids (state_of (Apply c (state_of (Apply r b)))) = bids b \<and>
         asks (state_of (Apply c (state_of (Apply r b)))) = asks b \<and>
         order_lookup (state_of (Apply c (state_of (Apply r b)))) = order_lookup b"
proof -
  note lv = book_inv_side_levels [OF inv ne fresh]
  note rtb = side_round_trip [OF strict_order_greater levels_ok_sorted [OF book_inv_bids [OF inv]]
      lv(1), of "mbo_price r" "mbo_size r"]
  note rta = side_round_trip [OF strict_order_less levels_ok_sorted [OF book_inv_asks [OF inv]]
      lv(2), of "mbo_price r" "mbo_size r"]
  have nk: "mbo_order_id r \<notin> fst ` set (order_lookup b)"
    using fresh by (simp add: map_of_eq_None_iff)
  have idx: "AList.delete (mbo_order_id r)
      (AList.update (mbo_order_id r) loc (order_lookup b)) = order_lookup b" for loc
    using nk by (simp add: delete_update_same)
  have ar: "Apply r b = AddOrder r b" using r by (simp add: Apply_def)
  have ac: "Apply c b' = CancelOrder c b'" for b'
    using c by (simp add: Apply_def const_defs)
  show ?thesis
  proof (cases "mbo_side r" rule: side_cases)
    case bid
    show ?thesis
      unfolding ar ac
      using fresh c(3) rtb idx
      by (simp add: AddOrder_def CancelOrder_def GetOrCreateLevel_def at_level_sides
          RemoveEmptyLevel_sides MarkChanged_def Let_def update_conv' bid)
  next
    case ask
    show ?thesis
      unfolding ar ac
      using fresh c(3) rta idx sides_differ
      by (simp add: AddOrder_def CancelOrder_def GetOrCreateLevel_def at_level_sides
          RemoveEmptyLevel_sides MarkChanged_def Let_def update_conv' ask)
  next
    case other
    show ?thesis
      unfolding ar ac
      using fresh c(3) other
      by (simp add: AddOrder_def CancelOrder_def GetOrCreateLevel_def)
  qed
qed


lemma add_cancel_round_trip_example:
  "bids (apply_trace [event ACTION_ADD BID_SIDE 1 10000000000 2,
                      event ACTION_ADD BID_SIDE 2 10000000000 5,
                      event ACTION_CANCEL BID_SIDE 2 10000000000 5] OrderBook_new)
   = bids (apply_trace [event ACTION_ADD BID_SIDE 1 10000000000 2] OrderBook_new)"
proof -
  let ?b = "apply_trace [event ACTION_ADD BID_SIDE 1 10000000000 2] OrderBook_new"
  have inv: "book_inv ?b" using book_inv_new by (rule apply_trace_inv)
  have ne: "list_all (\<lambda>l. \<not> PriceLevel_IsEmpty l) (all_levels ?b)" by code_simp
  have fresh: "map_of (order_lookup ?b) (mbo_order_id (event ACTION_ADD BID_SIDE 2 10000000000 5))
      = None" by code_simp
  have r: "mbo_action (event ACTION_ADD BID_SIDE 2 10000000000 5) = ACTION_ADD"
    "IsValid (event ACTION_ADD BID_SIDE 2 10000000000 5)" by code_simp+
  have c: "mbo_action (event ACTION_CANCEL BID_SIDE 2 10000000000 5) = ACTION_CANCEL"
    "IsValid (event ACTION_CANCEL BID_SIDE 2 10000000000 5)"
    "mbo_order_id (event ACTION_CANCEL BID_SIDE 2 10000000000 5)
      = mbo_order_id (event ACTION_ADD BID_SIDE 2 10000000000 5)" by code_simp+
  show ?thesis
    using add_cancel_round_trip [OF inv ne fresh r c] by simp
qed

section \<open>The book inside the processor\<close>

lemma CreateMBPRecord_inv:
  "book_inv (order_book p) \<Longrightarrow> book_inv (order_book (snd (CreateMBPRecord r p)))"
  by (simp add: CreateMBPRecord_def GetTopBids_eq GetTopAsks_eq book_inv_flags)

lemma WriteMBPRecord_book: "order_book (state_of (WriteMBPRecord mbp p)) = order_book p"
  by (simp add: WriteMBPRecord_cases)

lemma emit_step_inv:
  assumes "book_inv (order_book p)"
  shows "book_inv (order_book (state_of (emit_step r p)))"
proof -
  obtain mbp p3 where c: "CreateMBPRecord r p = (mbp, p3)" by (cases "CreateMBPRecord r p")
  have i3: "book_inv (order_book p3)" using CreateMBPRecord_inv [OF assms, of r] c by simp
  have "order_book (state_of (WriteMBPRecord mbp p3)) = order_book p3"
    by (rule WriteMBPRecord_book)
  then show ?thesis
    using assms i3 c
    by (cases "WriteMBPRecord mbp p3") (auto simp: emit_step_def book_inv_flags)
qed

lemma HandleSpecialCase_inv:
  assumes "book_inv (order_book p)"
  shows "book_inv (order_book (snd (state_of (HandleSpecialCase r p))))"
proof (cases "mbo_action r = ACTION_CLEAR")
  case False
  then show ?thesis using assms by (simp add: HandleSpecialCase_not_clear)
next
  case True
  let ?p1 = "p\<lparr>order_book := Clear (order_book p), record_count := record_count p + 1\<rparr>"
  obtain mbp p2 where c: "CreateMBPRecord r ?p1 = (mbp, p2)" by (cases "CreateMBPRecord r ?p1")
  have "book_inv (order_book ?p1)" by (simp add: Clear_inv)
  then have i2: "book_inv (order_book p2)" using CreateMBPRecord_inv [of ?p1 r] c by simp
  have "order_book (state_of (WriteMBPRecord mbp p2)) = order_book p2"
    by (rule WriteMBPRecord_book)
  then show ?thesis
    using True i2 c by (cases "WriteMBPRecord mbp p2") (auto simp: HandleSpecialCase_def)
qed

lemma ProcessRecord_inv:
  assumes "book_inv (order_book p)"
  shows "book_inv (order_book (state_of (ProcessRecord r p)))"
proof (cases "mbo_action r = ACTION_CLEAR")
  case True
  then show ?thesis using HandleSpecialCase_inv [OF assms] by (simp add: ProcessRecord_clear)
next
  case False
  show ?thesis
  proof (cases "Apply r (order_book p)")
    case (Done b)
    then have "book_inv b" using Apply_inv [OF assms, of r] by simp
    then have "book_inv (order_book (p\<lparr>order_book := b, record_count := record_count p + 1\<rparr>))"
      by simp
    then show ?thesis
      using False Done by (simp add: ProcessRecord_not_clear emit_step_inv)
  next
    case (Thrown e b)
    then have "book_inv b" using Apply_inv [OF assms, of r] by simp
    then show ?thesis using False Thrown by (simp add: ProcessRecord_not_clear)
  qed
qed

text \<open>
  The invariant, and so the level sums and the order of both sides, also holds of the
  book of a processor after any input.
\<close>

lemma ProcessFile_inv:
  "book_inv (order_book p) \<Longrightarrow> book_inv (order_book (fst (ProcessFile rs (p, errs))))"
proof (induction rs arbitrary: p errs)
  case Nil
  then show ?case by simp
next
  case (Cons r rs)
  have "book_inv (order_book (state_of (ProcessRecord r p)))"
    using Cons.prems by (rule ProcessRecord_inv)
  then show ?case
    by (cases "ProcessRecord r p") (simp_all add: Cons.IH)
qed

lemma processor_level_sums:
  "list_all level_sum_mod
     (all_levels (order_book (fst (ProcessFile rs (MBOProcessor_new, [])))))"
proof -
  have "book_inv (order_book MBOProcessor_new)"
    by (simp add: MBOProcessor_new_def book_inv_new)
  then have "book_inv (order_book (fst (ProcessFile rs (MBOProcessor_new, []))))"
    by (rule ProcessFile_inv)
  then show ?thesis
    unfolding list_all_iff using book_inv_all_levels lvl_ok_level_sum_mod by blast
qed

end
